theory Spec2Isabelle
  imports Complex_Main "HOL-Library.Option_ord" "HOL-Library.Product_Lexorder" "HOL-Library.List_Lexorder" "HOL-Library.Char_ord"
begin

section \<open>Floating-point columns\<close>

text \<open>
  A pandas float column holds a finite number, an infinity or NaN (which is also how a
  null cell is stored). Rounding error is left out: the finite values are reals. The
  arithmetic follows IEEE 754 on the special values, which is what pandas does on a
  float column (no exception is raised on division by zero). Signed zeros are not
  distinguished.
\<close>

datatype flt = NaN | NegInf | PosInf | Fin real

fun isna :: "flt \<Rightarrow> bool" where
  "isna NaN = True"
| "isna _ = False"

fun fle :: "flt \<Rightarrow> flt \<Rightarrow> bool" where
  "fle NaN _ = False"
| "fle _ NaN = False"
| "fle NegInf _ = True"
| "fle _ PosInf = True"
| "fle (Fin a) (Fin b) = (a \<le> b)"
| "fle PosInf _ = False"
| "fle (Fin a) NegInf = False"

fun fless :: "flt \<Rightarrow> flt \<Rightarrow> bool" where
  "fless NaN _ = False"
| "fless _ NaN = False"
| "fless NegInf NegInf = False"
| "fless NegInf _ = True"
| "fless PosInf _ = False"
| "fless (Fin a) PosInf = True"
| "fless (Fin a) (Fin b) = (a < b)"
| "fless (Fin a) NegInf = False"

fun fneg :: "flt \<Rightarrow> flt" where
  "fneg NaN = NaN"
| "fneg NegInf = PosInf"
| "fneg PosInf = NegInf"
| "fneg (Fin a) = Fin (- a)"

fun fadd :: "flt \<Rightarrow> flt \<Rightarrow> flt" where
  "fadd NaN _ = NaN"
| "fadd _ NaN = NaN"
| "fadd PosInf NegInf = NaN"
| "fadd NegInf PosInf = NaN"
| "fadd PosInf _ = PosInf"
| "fadd _ PosInf = PosInf"
| "fadd NegInf _ = NegInf"
| "fadd _ NegInf = NegInf"
| "fadd (Fin a) (Fin b) = Fin (a + b)"

definition fsub :: "flt \<Rightarrow> flt \<Rightarrow> flt" where
  "fsub a b = fadd a (fneg b)"

text \<open>The sign of a value: \<open>-1\<close>, \<open>0\<close> or \<open>1\<close>; NaN has none.\<close>

fun fsign :: "flt \<Rightarrow> int" where
  "fsign NaN = 0"
| "fsign NegInf = - 1"
| "fsign PosInf = 1"
| "fsign (Fin a) = (if a < 0 then - 1 else if a = 0 then 0 else 1)"

definition inf_of_sign :: "int \<Rightarrow> flt" where
  "inf_of_sign s = (if s < 0 then NegInf else if s = 0 then NaN else PosInf)"

fun fmul :: "flt \<Rightarrow> flt \<Rightarrow> flt" where
  "fmul NaN _ = NaN"
| "fmul _ NaN = NaN"
| "fmul (Fin a) (Fin b) = Fin (a * b)"
| "fmul a b = inf_of_sign (fsign a * fsign b)"

fun fdiv :: "flt \<Rightarrow> flt \<Rightarrow> flt" where
  "fdiv NaN _ = NaN"
| "fdiv _ NaN = NaN"
| "fdiv (Fin a) (Fin b) = (if b = 0 then inf_of_sign (fsign (Fin a)) else Fin (a / b))"
| "fdiv (Fin a) _ = Fin 0"
| "fdiv a (Fin b) = (if b = 0 then a else inf_of_sign (fsign a * fsign (Fin b)))"
| "fdiv _ _ = NaN"

section \<open>Map colours (main.py, build\_map)\<close>

text \<open>
  The four colours of \<open>color_logic\<close>. The legend of the dashboard names them: gray is
  "missing data", brown "flow stable or decreasing", blue "rising moderately" and red
  "sharp rise".
\<close>

definition gray :: string where "gray = ''#808080''"
definition brown :: string where "brown = ''#A18F65''"
definition red :: string where "red = ''#942719''"
definition blue :: string where "blue = ''#5279A8''"

definition color_logic :: "flt \<Rightarrow> string" where
  "color_logic x =
     (if isna x then gray
      else if fle x (Fin 0) then brown
      else if fless (Fin 25) x then red
      else blue)"

section \<open>The reading store (fetch\_data.py)\<close>

text \<open>
  Timestamps are instants counted in seconds since the epoch, in UTC. A timestamp cell
  of a CSV file or of a fetched row is text; the model keeps what parsing makes of it:
  an instant, a null cell (which parses to NaT), or text that is no ISO 8601 timestamp.
  A parsed column holds \<open>Some t\<close> or \<open>None\<close> for NaT.

  The site identifier is any linearly ordered type (a string from the web service, an
  integer once a CSV file has been read back). Latitude, longitude and region play no
  role in the computations and are left out of the rows.
\<close>

datatype ts_cell = TsOk int | TsNull | TsBad

datatype error = ValueError

record ('s, 't) reading =
  site_no :: 's
  site_name :: string
  timestamp_utc :: 't
  flow_cfs :: flt

definition set_timestamp :: "('s, 'a) reading \<Rightarrow> 'b \<Rightarrow> ('s, 'b) reading" where
  "set_timestamp r t =
     \<lparr>site_no = site_no r, site_name = site_name r, timestamp_utc = t, flow_cfs = flow_cfs r\<rparr>"

text \<open>\<open>pd.to_datetime\<close> without \<open>errors="coerce"\<close>: malformed text raises.\<close>

fun to_datetime_raise :: "('s, ts_cell) reading list \<Rightarrow> error + ('s, int option) reading list" where
  "to_datetime_raise [] = Inr []"
| "to_datetime_raise (r # rs) =
     (case timestamp_utc r of
        TsBad \<Rightarrow> Inl ValueError
      | TsNull \<Rightarrow> (case to_datetime_raise rs of
                    Inl e \<Rightarrow> Inl e
                  | Inr rs' \<Rightarrow> Inr (set_timestamp r None # rs'))
      | TsOk t \<Rightarrow> (case to_datetime_raise rs of
                    Inl e \<Rightarrow> Inl e
                  | Inr rs' \<Rightarrow> Inr (set_timestamp r (Some t) # rs')))"

text \<open>A comparison with NaT is false.\<close>

fun ts_ge :: "int option \<Rightarrow> int \<Rightarrow> bool" where
  "ts_ge None c = False"
| "ts_ge (Some t) c = (c \<le> t)"

text \<open>
  \<open>append_and_trim\<close>: \<open>file\<close> is the content of the CSV file, \<open>None\<close> when it does not
  exist; \<open>now\<close> is the clock read at entry. The result is the content written back, or
  the exception (then nothing is written).
\<close>

definition append_and_trim ::
  "('s, ts_cell) reading list \<Rightarrow> ('s, ts_cell) reading list option \<Rightarrow> int \<Rightarrow> int
     \<Rightarrow> error + ('s, int option) reading list" where
  "append_and_trim df_new file now hours =
     (let cutoff_time = now - hours * 3600;
          df_all = (case file of Some df_old \<Rightarrow> df_old @ df_new | None \<Rightarrow> df_new)
      in case to_datetime_raise df_all of
           Inl e \<Rightarrow> Inl e
         | Inr parsed \<Rightarrow> Inr (filter (\<lambda>r. ts_ge (timestamp_utc r) cutoff_time) parsed))"


section \<open>Rate of change over sample counts (compare\_p90\_roc.py)\<close>

text \<open>
  \<open>WINDOWS\<close>: the look-back of each label, counted in samples (12 samples of five
  minutes per hour).
\<close>

definition WINDOWS :: "(string \<times> nat) list" where
  "WINDOWS = [(''1h'', 12), (''3h'', 36), (''6h'', 72)]"

definition window_of :: "string \<Rightarrow> nat" where
  "window_of label = (case map_of WINDOWS label of Some window \<Rightarrow> window | None \<Rightarrow> 0)"

text \<open>\<open>Series.shift\<close>: the values move \<open>w\<close> places down, NaN enters at the top.\<close>

definition shift :: "nat \<Rightarrow> flt list \<Rightarrow> flt list" where
  "shift w x = take (length x) (replicate w NaN @ x)"

text \<open>The lambda of the transform: \<open>(x - x.shift(window)) / x.shift(window) * 100\<close>.\<close>

definition pct_change_window :: "nat \<Rightarrow> flt list \<Rightarrow> flt list" where
  "pct_change_window window x =
     map2 (\<lambda>a b. fmul (fdiv (fsub a b) b) (Fin 100)) x (shift window x)"

text \<open>
  \<open>df.groupby(key)[col].transform(f)\<close>: \<open>f\<close> is applied to the column of every group, in
  the order of the rows, and each row receives the value at its place within its group.
  A row with a null key belongs to no group and receives NaN.
\<close>

definition groupby_transform ::
  "('r \<Rightarrow> 'k option) \<Rightarrow> ('r \<Rightarrow> flt) \<Rightarrow> (flt list \<Rightarrow> flt list) \<Rightarrow> 'r list \<Rightarrow> flt list" where
  "groupby_transform key col f df =
     map (\<lambda>i. case key (df ! i) of
                None \<Rightarrow> NaN
              | Some k \<Rightarrow> f (map col (filter (\<lambda>r. key r = Some k) df))
                           ! length (filter (\<lambda>r. key r = Some k) (take i df)))
         [0..<length df]"

text \<open>
  \<open>sort_values(["site_no", "timestamp_utc"])\<close>: lexicographic and stable, nulls last in
  each column.
\<close>

definition site_time_key ::
  "('s option, int option, 'm) reading_scheme \<Rightarrow> (bool \<times> 's option) \<times> (bool \<times> int option)" where
  "site_time_key r =
     ((site_no r = None, site_no r), (timestamp_utc r = None, timestamp_utc r))"

record ('s, 't) roc_row = "('s, 't) reading" +
  pct_change_1h :: flt
  pct_change_3h :: flt
  pct_change_6h :: flt

definition add_pct_change :: "('s, 't) reading \<Rightarrow> flt \<Rightarrow> flt \<Rightarrow> flt \<Rightarrow> ('s, 't) roc_row" where
  "add_pct_change r c1 c3 c6 =
     \<lparr>site_no = site_no r, site_name = site_name r, timestamp_utc = timestamp_utc r,
      flow_cfs = flow_cfs r, pct_change_1h = c1, pct_change_3h = c3, pct_change_6h = c6\<rparr>"

text \<open>
  \<open>compute_rate_of_change\<close>: parse the timestamps (malformed text raises), sort by site
  and time, and add one column per entry of \<open>WINDOWS\<close>, computed per site on the sorted
  rows.
\<close>

definition compute_rate_of_change ::
  "('s::linorder option, ts_cell) reading list \<Rightarrow> error + ('s option, int option) roc_row list" where
  "compute_rate_of_change df0 =
     (case to_datetime_raise df0 of
        Inl e \<Rightarrow> Inl e
      | Inr parsed \<Rightarrow>
          (let df = sort_key site_time_key parsed;
               c1 = groupby_transform site_no flow_cfs (pct_change_window (window_of ''1h'')) df;
               c3 = groupby_transform site_no flow_cfs (pct_change_window (window_of ''3h'')) df;
               c6 = groupby_transform site_no flow_cfs (pct_change_window (window_of ''6h'')) df
           in Inr (map (\<lambda>i. add_pct_change (df ! i) (c1 ! i) (c3 ! i) (c6 ! i))
                     [0..<length df])))"

text \<open>The order of one site's rows after the sort: by timestamp, NaT last.\<close>

definition time_key :: "('s, int option, 'm) reading_scheme \<Rightarrow> bool \<times> int option" where
  "time_key r = (timestamp_utc r = None, timestamp_utc r)"

text \<open>The columns of a row that were read, without the computed ones.\<close>

definition reading_of :: "('s, 't, 'm) reading_scheme \<Rightarrow> ('s, 't) reading" where
  "reading_of r =
     \<lparr>site_no = site_no r, site_name = site_name r, timestamp_utc = timestamp_utc r,
      flow_cfs = flow_cfs r\<rparr>"

text \<open>
  A sample frame: thirteen readings of one gauge, five minutes apart, the first with
  flow 0 and the others with flow 5; and the same frame with its timestamps parsed.
\<close>

definition sample_frame :: "(nat option, ts_cell) reading list" where
  "sample_frame =
     map (\<lambda>i. \<lparr>site_no = Some 1, site_name = ''gauge'', timestamp_utc = TsOk (300 * int i),
               flow_cfs = Fin (if i = 0 then 0 else 5)\<rparr>) [0..<13]"

definition sample_parsed :: "(nat option, int option) reading list" where
  "sample_parsed =
     map (\<lambda>i. \<lparr>site_no = Some 1, site_name = ''gauge'', timestamp_utc = Some (300 * int i),
               flow_cfs = Fin (if i = 0 then 0 else 5)\<rparr>) [0..<13]"

section \<open>Rate of change against the nearest reading (process\_gauge\_data.py)\<close>

text \<open>
  The keys of \<open>groupby('site_no')\<close>: the sites of the frame, ascending; rows with a null
  site belong to no group.
\<close>

definition group_keys :: "('s::linorder option, 't, 'm) reading_scheme list \<Rightarrow> 's list" where
  "group_keys df = sort (remdups (List.map_filter site_no df))"

definition group_of :: "'s \<Rightarrow> ('s option, 't, 'm) reading_scheme list \<Rightarrow> ('s option, 't, 'm) reading_scheme list" where
  "group_of s df = filter (\<lambda>r. site_no r = Some s) df"

text \<open>\<open>argmin\<close>: the position of the first smallest value.\<close>

fun argmin :: "int list \<Rightarrow> nat" where
  "argmin [] = 0"
| "argmin (x # xs) = (if list_all (\<lambda>y. x \<le> y) xs then 0 else Suc (argmin xs))"

text \<open>\<open>x != 0\<close> on a float: true for NaN and for the infinities.\<close>

fun nonzero :: "flt \<Rightarrow> bool" where
  "nonzero (Fin a) = (a \<noteq> 0)"
| "nonzero _ = True"

text \<open>
  \<open>time_diff\<close>: the distance of a row from the target time, NaT for a row without a
  timestamp.
\<close>

definition time_diff :: "int \<Rightarrow> ('s, int option, 'm) reading_scheme \<Rightarrow> int option" where
  "time_diff target_time r = map_option (\<lambda>t. \<bar>t - target_time\<bar>) (timestamp_utc r)"

text \<open>
  The rows of a group under the mask \<open>time_diff <= 30 minutes\<close>, each as its
  \<open>time_diff\<close> and its flow. A comparison with NaT is false.
\<close>

definition masked :: "int \<Rightarrow> ('s, int option, 'm) reading_scheme list \<Rightarrow> (int \<times> flt) list" where
  "masked target_time grp =
     List.map_filter
       (\<lambda>r. case time_diff target_time r of
               None \<Rightarrow> None
             | Some d \<Rightarrow> if d \<le> 30 * 60 then Some (d, flow_cfs r) else None)
       grp"

text \<open>The body of the loop of \<open>compute_pct_change_3h\<close>, for one (non-empty) group.\<close>

definition pct_change_of_group :: "('s, int option, 'm) reading_scheme list \<Rightarrow> flt" where
  "pct_change_of_group grp =
     (let latest_row = last grp in
      case timestamp_utc latest_row of
        None \<Rightarrow> NaN
      | Some latest_time \<Rightarrow>
          (let target_time = latest_time - 3 * 3600;
               cands = masked target_time grp
           in if cands \<noteq> []
              then (let flow_3h = snd (cands ! argmin (map fst cands))
                    in if nonzero flow_3h
                       then fmul (fdiv (fsub (flow_cfs latest_row) flow_3h) flow_3h) (Fin 100)
                       else NaN)
              else NaN))"

definition compute_pct_change_3h :: "('s::linorder option, int option, 'm) reading_scheme list \<Rightarrow> flt list" where
  "compute_pct_change_3h df = map (\<lambda>site. pct_change_of_group (group_of site df)) (group_keys df)"

text \<open>
  The example of the nearest-neighbour mode: a reading of 40 at 09:10 and the latest
  reading of 50 at 12:00 (seconds of one day); and the same with the earlier reading at
  08:20, outside the tolerance.
\<close>

definition gauge_example :: "(nat option, int option) reading list" where
  "gauge_example =
     [\<lparr>site_no = Some 7, site_name = ''g'', timestamp_utc = Some (9 * 3600 + 600), flow_cfs = Fin 40\<rparr>,
      \<lparr>site_no = Some 7, site_name = ''g'', timestamp_utc = Some (12 * 3600), flow_cfs = Fin 50\<rparr>]"

definition gauge_example_far :: "(nat option, int option) reading list" where
  "gauge_example_far =
     [\<lparr>site_no = Some 7, site_name = ''g'', timestamp_utc = Some (8 * 3600 + 1200), flow_cfs = Fin 40\<rparr>,
      \<lparr>site_no = Some 7, site_name = ''g'', timestamp_utc = Some (12 * 3600), flow_cfs = Fin 50\<rparr>]"

section \<open>Calendar\<close>

text \<open>
  The day of the year of an instant, as pandas' \<open>dt.dayofyear\<close> gives it for a column
  in UTC: the instant falls on day \<open>t div 86400\<close> since the epoch, whose proleptic
  Gregorian ordinal (1 for 0001-01-01) is split into a year and a day of that year the
  way the standard library does it (datetime, \<open>_ord2ymd\<close>).
\<close>

definition is_leap :: "int \<Rightarrow> bool" where
  "is_leap y \<longleftrightarrow> y mod 4 = 0 \<and> (y mod 100 \<noteq> 0 \<or> y mod 400 = 0)"

definition days_before_year :: "int \<Rightarrow> int" where
  "days_before_year y = (y - 1) * 365 + (y - 1) div 4 - (y - 1) div 100 + (y - 1) div 400"

definition ord2yd :: "int \<Rightarrow> int \<times> int" where
  "ord2yd ordinal =
     (let n = ordinal - 1;
          n400 = n div 146097; n = n mod 146097;
          n100 = n div 36524; n = n mod 36524;
          n4 = n div 1461; n = n mod 1461;
          n1 = n div 365; n = n mod 365;
          year = n400 * 400 + 1 + n100 * 100 + n4 * 4 + n1
      in if n1 = 4 \<or> n100 = 4 then (year - 1, 366) else (year, n + 1))"

definition epoch_ordinal :: int where
  "epoch_ordinal = 719163"

definition ordinal_of :: "int \<Rightarrow> int" where
  "ordinal_of t = t div 86400 + epoch_ordinal"

definition dayofyear :: "int \<Rightarrow> int" where
  "dayofyear t = snd (ord2yd (ordinal_of t))"

text \<open>
  The zone US/Eastern, from 1987 on: standard time is five hours behind UTC, daylight
  time four. Since 2007 daylight time runs from the second Sunday of March to the first
  Sunday of November, before that from the first Sunday of April to the last Sunday of
  October; it starts at 02:00 standard time (07:00 UTC) and ends at 02:00 daylight time
  (06:00 UTC). Ordinals count Monday as weekday 0.
\<close>

definition weekday :: "int \<Rightarrow> int" where
  "weekday ordinal = (ordinal + 6) mod 7"

definition sunday_on_or_after :: "int \<Rightarrow> int" where
  "sunday_on_or_after ordinal = ordinal + (6 - weekday ordinal) mod 7"

definition ordinal_of_date :: "int \<Rightarrow> int \<Rightarrow> int \<Rightarrow> int" where
  "ordinal_of_date y m d =
     days_before_year y
       + ([0, 31, 59, 90, 120, 151, 181, 212, 243, 273, 304, 334] ! nat (m - 1))
       + (if 2 < m \<and> is_leap y then 1 else 0) + d"

definition dst_start :: "int \<Rightarrow> int" where
  "dst_start y =
     (sunday_on_or_after (if 2007 \<le> y then ordinal_of_date y 3 8 else ordinal_of_date y 4 1)
        - epoch_ordinal) * 86400 + 7 * 3600"

definition dst_end :: "int \<Rightarrow> int" where
  "dst_end y =
     (sunday_on_or_after (if 2007 \<le> y then ordinal_of_date y 11 1 else ordinal_of_date y 10 25)
        - epoch_ordinal) * 86400 + 6 * 3600"

definition us_eastern_offset :: "int \<Rightarrow> int" where
  "us_eastern_offset t =
     (let y = fst (ord2yd (ordinal_of t))
      in if dst_start y \<le> t \<and> t < dst_end y then - 4 * 3600 else - 5 * 3600)"

text \<open>
  \<open>tz_convert("US/Eastern")\<close>, \<open>.dt.date\<close> and \<open>dayofyear\<close>: the day of the year of the
  local civil date of an instant.
\<close>

definition dayofyear_us_eastern :: "int \<Rightarrow> int" where
  "dayofyear_us_eastern t = dayofyear (t + us_eastern_offset t)"

section \<open>Comparison with the baseline (compare\_p90\_roc.py)\<close>

text \<open>A row of the baseline file \<open>historical_p90.csv\<close>.\<close>

record 's hist_row =
  hist_site_no :: 's
  hist_site_name :: string
  hist_day_of_year :: int
  hist_p90_flow_cfs :: flt

record ('s, 't) prepared_row = "('s, 't) roc_row" +
  day_of_year :: "int option"

definition add_day_of_year :: "('s, 't) roc_row \<Rightarrow> int option \<Rightarrow> ('s, 't) prepared_row" where
  "add_day_of_year r d =
     \<lparr>site_no = site_no r, site_name = site_name r, timestamp_utc = timestamp_utc r,
      flow_cfs = flow_cfs r, pct_change_1h = pct_change_1h r, pct_change_3h = pct_change_3h r,
      pct_change_6h = pct_change_6h r, day_of_year = d\<rparr>"

text \<open>
  \<open>prepare_current_data\<close>, on the frame that \<open>compute_rate_of_change\<close> returns (its
  timestamps are parsed already): the day of the year is read off the UTC timestamp, and
  the rows with a null day of year, flow or site are dropped.
\<close>

definition prepare_current_data ::
  "('s option, int option) roc_row list \<Rightarrow> ('s option, int option) prepared_row list" where
  "prepare_current_data df =
     filter (\<lambda>r. day_of_year r \<noteq> None \<and> \<not> isna (flow_cfs r) \<and> site_no r \<noteq> None)
       (map (\<lambda>r. add_day_of_year r (map_option dayofyear (timestamp_utc r))) df)"

record ('s, 't) classified_row = "('s, 't) roc_row" +
  p90_flow_cfs :: flt
  ratio :: flt
  high_flow :: bool

text \<open>
  One row of the merged frame with its threshold: the ratio, set to NaN where the
  threshold is null or zero, and the flag \<open>ratio >= 1.0\<close>.
\<close>

definition classify :: "('s, 't) prepared_row \<Rightarrow> flt \<Rightarrow> ('s, 't) classified_row" where
  "classify r p90 =
     (let ratio0 = fdiv (flow_cfs r) p90;
          ratio1 = (if isna p90 \<or> p90 = Fin 0 then NaN else ratio0)
      in \<lparr>site_no = site_no r, site_name = site_name r, timestamp_utc = timestamp_utc r,
          flow_cfs = flow_cfs r, pct_change_1h = pct_change_1h r,
          pct_change_3h = pct_change_3h r, pct_change_6h = pct_change_6h r,
          p90_flow_cfs = p90, ratio = ratio1, high_flow = fle (Fin 1) ratio1\<rparr>)"

text \<open>
  \<open>compare_to_historical\<close>: the left merge on site and day of year keeps the order of
  the current rows; a row without a match keeps a null threshold, a row with several
  matches appears once per match.
\<close>

definition compare_to_historical ::
  "('s option, 't) prepared_row list \<Rightarrow> 's hist_row list \<Rightarrow> ('s option, 't) classified_row list" where
  "compare_to_historical df_current df_hist =
     concat (map (\<lambda>r.
        (let matches = filter (\<lambda>h. site_no r = Some (hist_site_no h)
                                  \<and> day_of_year r = Some (hist_day_of_year h)) df_hist
         in if matches = [] then [classify r NaN]
            else map (\<lambda>h. classify r (hist_p90_flow_cfs h)) matches)) df_current)"

text \<open>
  \<open>main\<close> of compare\_p90\_roc.py: \<open>df_current\<close> is the frame read from the current
  files, \<open>hist_file\<close> the content of the baseline file, \<open>None\<close> when it does not exist.
  The result is the frame written to the output file, \<open>None\<close> when the run stops
  without writing one.
\<close>

definition compare_p90_roc_main ::
  "('s::linorder option, ts_cell) reading list \<Rightarrow> 's hist_row list option
     \<Rightarrow> error + ('s option, int option) classified_row list option" where
  "compare_p90_roc_main df_current hist_file =
     (if df_current = [] then Inr None
      else case compute_rate_of_change df_current of
             Inl e \<Rightarrow> Inl e
           | Inr df_roc \<Rightarrow>
               (let df_prepared = prepare_current_data df_roc
                in case hist_file of
                     None \<Rightarrow> Inr None
                   | Some df_hist \<Rightarrow> Inr (Some (compare_to_historical df_prepared df_hist))))"

section \<open>The latest reading of each gauge (process\_gauge\_data.py)\<close>

text \<open>\<open>groupby('site_no').last()\<close>: per column, the last value of the group that is not null.\<close>

definition last_timestamp :: "int option list \<Rightarrow> int option" where
  "last_timestamp xs = (case filter (\<lambda>x. x \<noteq> None) xs of [] \<Rightarrow> None | y # ys \<Rightarrow> last (y # ys))"

definition last_flow :: "flt list \<Rightarrow> flt" where
  "last_flow xs = (case filter (\<lambda>x. \<not> isna x) xs of [] \<Rightarrow> NaN | y # ys \<Rightarrow> last (y # ys))"

record ('s, 't) processed_row = "('s, 't) reading" +
  pct_change_3h' :: flt
  day_of_year' :: "int option"
  p90_flow_cfs' :: flt
  ratio' :: flt

definition latest_of_group ::
  "'s \<Rightarrow> ('s option, int option) reading list \<Rightarrow> ('s option, int option) reading" where
  "latest_of_group site grp =
     \<lparr>site_no = Some site, site_name = site_name (last grp),
      timestamp_utc = last_timestamp (map timestamp_utc grp),
      flow_cfs = last_flow (map flow_cfs grp)\<rparr>"

definition process ::
  "('s option, int option) reading \<Rightarrow> flt \<Rightarrow> flt \<Rightarrow> ('s option, int option) processed_row" where
  "process r pct p90 =
     \<lparr>site_no = site_no r, site_name = site_name r, timestamp_utc = timestamp_utc r,
      flow_cfs = flow_cfs r, pct_change_3h' = pct,
      day_of_year' = map_option dayofyear (timestamp_utc r),
      p90_flow_cfs' = p90, ratio' = fdiv (flow_cfs r) p90\<rparr>"

text \<open>
  The script: sort the gauge frame by site and time, take the latest row of every
  gauge, add the 3-hour change and the day of the year of the UTC timestamp, merge the
  thresholds on site and day of year, and divide. (The day of the year is dropped
  again before the frame is written; the model keeps it to show the key of the merge.)
\<close>

definition process_gauge_data ::
  "('s::linorder option, int option) reading list \<Rightarrow> 's hist_row list
     \<Rightarrow> ('s option, int option) processed_row list" where
  "process_gauge_data df_gauge0 df_hist =
     (let df_gauge = sort_key site_time_key df_gauge0;
          df_latest = map (\<lambda>site. latest_of_group site (group_of site df_gauge)) (group_keys df_gauge);
          pcts = compute_pct_change_3h df_gauge
      in concat (map (\<lambda>(r, pct).
           (let matches = filter (\<lambda>h. site_no r = Some (hist_site_no h)
                                     \<and> map_option dayofyear (timestamp_utc r) = Some (hist_day_of_year h)) df_hist
            in if matches = [] then [process r pct NaN]
               else map (\<lambda>h. process r pct (hist_p90_flow_cfs h)) matches)) (zip df_latest pcts)))"

text \<open>
  Sample inputs. A reading at 2024-01-02 02:00 UTC, which is 21:00 on 1 January in
  Virginia; a gauge whose only reading has no flow; and a baseline row for that gauge on
  day 2 with threshold 5.
\<close>

definition evening_instant :: int where
  "evening_instant = 1704160800"

definition evening_frame :: "(nat option, ts_cell) reading list" where
  "evening_frame =
     [\<lparr>site_no = Some 7, site_name = ''g'', timestamp_utc = TsOk evening_instant, flow_cfs = Fin 100\<rparr>]"

definition silent_gauge :: "(nat option, int option) reading list" where
  "silent_gauge =
     [\<lparr>site_no = Some 7, site_name = ''g'', timestamp_utc = Some evening_instant, flow_cfs = NaN\<rparr>]"

definition sample_hist :: "nat hist_row list" where
  "sample_hist =
     [\<lparr>hist_site_no = 7, hist_site_name = ''g'', hist_day_of_year = 2, hist_p90_flow_cfs = Fin 5\<rparr>]"

text \<open>
  A frame with one complete reading and three that lack a flow, a site or a timestamp;
  and a baseline with different thresholds on days 1 and 2.
\<close>

definition mixed_frame :: "(nat option, ts_cell) reading list" where
  "mixed_frame =
     [\<lparr>site_no = Some 7, site_name = ''g'', timestamp_utc = TsOk evening_instant, flow_cfs = Fin 100\<rparr>,
      \<lparr>site_no = Some 7, site_name = ''g'', timestamp_utc = TsOk (evening_instant + 300), flow_cfs = NaN\<rparr>,
      \<lparr>site_no = None, site_name = ''g'', timestamp_utc = TsOk (evening_instant + 300), flow_cfs = Fin 1\<rparr>,
      \<lparr>site_no = Some 8, site_name = ''h'', timestamp_utc = TsNull, flow_cfs = Fin 1\<rparr>]"

definition two_day_hist :: "nat hist_row list" where
  "two_day_hist =
     [\<lparr>hist_site_no = 7, hist_site_name = ''g'', hist_day_of_year = 1, hist_p90_flow_cfs = Fin 10\<rparr>,
      \<lparr>hist_site_no = 7, hist_site_name = ''g'', hist_day_of_year = 2, hist_p90_flow_cfs = Fin 20\<rparr>]"

section \<open>The baseline (fetch\_historical.py)\<close>

text \<open>
  A row of the archive as \<open>fetch_va_dv_chunk\<close> collects it: the timestamp is kept as
  text (column \<open>date\<close>), the daily flow is a number or null.
\<close>

record 's daily_row =
  dv_site_no :: 's
  dv_site_name :: string
  date :: ts_cell
  dv_flow_cfs :: "real option"

text \<open>\<open>pd.to_datetime(..., errors="coerce")\<close>: what is no timestamp becomes NaT.\<close>

fun to_datetime_coerce :: "ts_cell \<Rightarrow> int option" where
  "to_datetime_coerce (TsOk t) = Some t"
| "to_datetime_coerce TsNull = None"
| "to_datetime_coerce TsBad = None"

text \<open>The day of the year of a row of the archive: that of its date in US/Eastern.\<close>

definition dv_day_of_year :: "'s daily_row \<Rightarrow> int option" where
  "dv_day_of_year r = map_option dayofyear_us_eastern (to_datetime_coerce (date r))"

text \<open>\<open>groupby("site_no")["flow_cfs"].count()\<close>: the number of flows of a site that are not null.\<close>

definition site_count :: "'s \<Rightarrow> 's daily_row list \<Rightarrow> nat" where
  "site_count s df = length (filter (\<lambda>r. dv_site_no r = s \<and> dv_flow_cfs r \<noteq> None) df)"

text \<open>
  \<open>quantile(0.9)\<close> of the values of a group that are not null, by linear interpolation
  between the order statistics; null for a group without a value.
\<close>

definition quantile90 :: "real list \<Rightarrow> real option" where
  "quantile90 vs =
     (if vs = [] then None
      else (let sorted_vs = sort vs;
                k = 9 * (length vs - 1);
                lo = k div 10;
                frac = real (k mod 10) / 10
            in if Suc lo < length vs
               then Some (sorted_vs ! lo + frac * (sorted_vs ! Suc lo - sorted_vs ! lo))
               else Some (sorted_vs ! lo)))"

text \<open>
  The keys of a \<open>groupby\<close> over site, name and day of year, ascending; a row without a
  day of year belongs to no group.
\<close>

definition day_keys :: "('s::linorder) daily_row list \<Rightarrow> ('s \<times> string \<times> int) list" where
  "day_keys df =
     sort (remdups (List.map_filter
       (\<lambda>r. map_option (\<lambda>d. (dv_site_no r, dv_site_name r, d)) (dv_day_of_year r)) df))"

text \<open>The flows of one group that are not null.\<close>

definition day_flows :: "'s daily_row list \<Rightarrow> 's \<times> string \<times> int \<Rightarrow> real list" where
  "day_flows df k =
     List.map_filter dv_flow_cfs
       (filter (\<lambda>r. map_option (\<lambda>d. (dv_site_no r, dv_site_name r, d)) (dv_day_of_year r) = Some k) df)"

definition grouped_p90 :: "('s::linorder) daily_row list \<Rightarrow> (('s \<times> string \<times> int) \<times> real option) list" where
  "grouped_p90 df = map (\<lambda>k. (k, quantile90 (day_flows df k))) (day_keys df)"

text \<open>The valid points of a column at the given positions, in the order of the positions.\<close>

definition valid_points :: "real option list \<Rightarrow> nat list \<Rightarrow> (nat \<times> real) list" where
  "valid_points xs js = List.map_filter (\<lambda>j. map_option (\<lambda>v. (j, v)) (xs ! j)) js"

text \<open>
  \<open>interpolate(method="linear")\<close>: a null between two values lies on the line through
  them (the positions count as equally spaced); the nulls after the last value take
  that value; the nulls before the first value stay.
\<close>

definition interpolate :: "real option list \<Rightarrow> real option list" where
  "interpolate xs =
     map (\<lambda>i. case xs ! i of
                Some v \<Rightarrow> Some v
              | None \<Rightarrow>
                  (case valid_points xs (rev [0..<i]) of
                     [] \<Rightarrow> None
                   | (a, va) # _ \<Rightarrow>
                       (case valid_points xs [Suc i..<length xs] of
                          [] \<Rightarrow> Some va
                        | (b, vb) # _ \<Rightarrow> Some (va + (vb - va) * real (i - a) / real (b - a)))))
         [0..<length xs]"

text \<open>\<open>bfill\<close>: a null takes the next value; \<open>ffill\<close>: a null takes the previous value.\<close>

fun bfill :: "'a option list \<Rightarrow> 'a option list" where
  "bfill [] = []"
| "bfill (Some v # xs) = Some v # bfill xs"
| "bfill (None # xs) = (case bfill xs of [] \<Rightarrow> [None] | y # ys \<Rightarrow> y # y # ys)"

fun ffill_from :: "'a option \<Rightarrow> 'a option list \<Rightarrow> 'a option list" where
  "ffill_from l [] = []"
| "ffill_from l (Some v # xs) = Some v # ffill_from (Some v) xs"
| "ffill_from l (None # xs) = l # ffill_from l xs"

definition ffill :: "'a option list \<Rightarrow> 'a option list" where
  "ffill xs = ffill_from None xs"

text \<open>
  The left merge of the days with the quantiles of one site: the quantile of the day,
  null for a day without one.
\<close>

definition merged_value :: "(int \<times> real option) list \<Rightarrow> int \<Rightarrow> real option" where
  "merged_value site_df d =
     (case filter (\<lambda>(d', p). d' = d) site_df of [] \<Rightarrow> None | (d', p) # _ \<Rightarrow> p)"

text \<open>The three fills, then zero for a column that is still all null.\<close>

definition fill_column :: "real option list \<Rightarrow> real option list" where
  "fill_column merged =
     (let filled = ffill (bfill (interpolate merged))
      in if list_all (\<lambda>p. p = None) filled then map (\<lambda>p. Some 0) filled else filled)"

text \<open>The body of the loop over the sites: the column of the 365 days, filled.\<close>

definition site_curve :: "(int \<times> real option) list \<Rightarrow> real option list" where
  "site_curve site_df = fill_column (map (merged_value site_df) [1..365])"

fun flt_of :: "real option \<Rightarrow> flt" where
  "flt_of None = NaN"
| "flt_of (Some v) = Fin v"

text \<open>The rows of the sites that have a flow that is not null.\<close>

definition valid_rows :: "'s daily_row list \<Rightarrow> 's daily_row list" where
  "valid_rows df0 = filter (\<lambda>r. 0 < site_count (dv_site_no r) df0) df0"

text \<open>The keys of the loop over \<open>grouped.groupby(["site_no", "site_name"])\<close>, ascending.\<close>

definition site_keys ::
  "((('s::linorder) \<times> string \<times> int) \<times> real option) list \<Rightarrow> ('s \<times> string) list" where
  "site_keys grouped = sort (remdups (map (\<lambda>((s, n, d), p). (s, n)) grouped))"

text \<open>The rows of \<open>grouped\<close> of one site, as day and quantile.\<close>

definition site_frame ::
  "(('s \<times> string \<times> int) \<times> real option) list \<Rightarrow> 's \<times> string \<Rightarrow> (int \<times> real option) list" where
  "site_frame grouped key =
     map (\<lambda>((s, n, d), p). (d, p)) (filter (\<lambda>((s, n, d), p). s = fst key \<and> n = snd key) grouped)"

text \<open>The 365 rows that one pass of the loop appends.\<close>

definition site_block ::
  "(('s \<times> string \<times> int) \<times> real option) list \<Rightarrow> 's \<times> string \<Rightarrow> 's hist_row list" where
  "site_block grouped key =
     (let site_df = site_frame grouped key
      in map (\<lambda>(d, p). \<lparr>hist_site_no = fst key, hist_site_name = snd key,
                         hist_day_of_year = d, hist_p90_flow_cfs = flt_of p\<rparr>)
           (zip [1..365] (site_curve site_df)))"

definition compute_p90_by_day :: "('s::linorder) daily_row list \<Rightarrow> 's hist_row list" where
  "compute_p90_by_day df0 =
     (let df = valid_rows df0;
          grouped = grouped_p90 df
      in concat (map (site_block grouped) (site_keys grouped)))"

text \<open>
  The quantile of a site on a day of the year as the loop finds it before the fills:
  null when the site has no sample on that day.
\<close>

definition known_p90 :: "('s::linorder) daily_row list \<Rightarrow> 's \<times> string \<Rightarrow> int \<Rightarrow> real option" where
  "known_p90 df0 key d = merged_value (site_frame (grouped_p90 (valid_rows df0)) key) d"

text \<open>
  Sample archives: a gauge with a flow of 10 at 2024-01-02 02:00 UTC and of 40 three
  days later, beside a gauge whose only value is null; and a gauge whose only value is
  the code -9999 that the live feed uses for "no data".
\<close>

definition sample_archive :: "nat daily_row list" where
  "sample_archive =
     [\<lparr>dv_site_no = 7, dv_site_name = ''g'', date = TsOk evening_instant, dv_flow_cfs = Some 10\<rparr>,
      \<lparr>dv_site_no = 7, dv_site_name = ''g'', date = TsOk (evening_instant + 3 * 86400), dv_flow_cfs = Some 40\<rparr>,
      \<lparr>dv_site_no = 8, dv_site_name = ''h'', date = TsOk evening_instant, dv_flow_cfs = None\<rparr>]"

definition sentinel_archive :: "nat daily_row list" where
  "sentinel_archive =
     [\<lparr>dv_site_no = 9, dv_site_name = ''k'', date = TsOk evening_instant, dv_flow_cfs = Some (- 9999)\<rparr>]"

section \<open>The colour column of the map (main.py, build\_map)\<close>

text \<open>
  \<open>Series.round(3)\<close>: the value times 1000 is rounded to the nearest integer, a tie to
  the even one, and divided by 1000. NaN and the infinities stay.
\<close>

definition rint :: "real \<Rightarrow> int" where
  "rint x =
     (let f = \<lfloor>x\<rfloor>; d = x - of_int f
      in if d < 1 / 2 then f else if 1 / 2 < d then f + 1 else if even f then f else f + 1)"

fun round3 :: "flt \<Rightarrow> flt" where
  "round3 (Fin a) = Fin (of_int (rint (a * 1000)) / 1000)"
| "round3 x = x"

text \<open>
  \<open>build_map\<close>, up to the colour column: the rows whose flow is a number that is not
  negative are kept, \<open>pct_change_3h\<close> is replaced by its rounding to three decimals
  (for the hover text), and \<open>color_logic\<close> is applied to that column.
\<close>

definition build_map_colors :: "('s, 't) processed_row list \<Rightarrow> string list" where
  "build_map_colors df0 =
     (let df = filter (\<lambda>r. \<not> isna (flow_cfs r) \<and> fle (Fin 0) (flow_cfs r)) df0
      in map (\<lambda>r. color_logic (round3 (pct_change_3h' r))) df)"

text \<open>
  A row of the processed file with a given 3-hour change (the day of year is not a
  column of that file).
\<close>

definition gauge_rising :: "flt \<Rightarrow> (nat option, int option) processed_row" where
  "gauge_rising pct =
     \<lparr>site_no = Some 7, site_name = ''g'', timestamp_utc = Some evening_instant,
      flow_cfs = Fin 100, pct_change_3h' = pct, day_of_year' = None,
      p90_flow_cfs' = Fin 5, ratio' = Fin 20\<rparr>"

text \<open>An archive in which one site number comes under two names.\<close>

definition two_name_archive :: "nat daily_row list" where
  "two_name_archive =
     [\<lparr>dv_site_no = 7, dv_site_name = ''a'', date = TsOk evening_instant, dv_flow_cfs = Some 10\<rparr>,
      \<lparr>dv_site_no = 7, dv_site_name = ''b'', date = TsOk (evening_instant + 3 * 86400), dv_flow_cfs = Some 40\<rparr>]"
section \<open>Properties\<close>

subsection \<open>Map colours\<close>

text \<open>
  The bands of \<open>color_logic\<close>, on the value it is given: null is gray (missing), a value
  at most 0 is brown (stable or declining), a value above 0 and at most 25 is blue
  (moderate rise), a value above 25 is red (sharp rise); every value falls in one of
  the four cases, the four colours differ, and exactly 25 is blue.
\<close>

lemma color_logic_partition:
  "color_logic NaN = gray
   \<and> (\<forall>x. fle x (Fin 0) \<longrightarrow> color_logic x = brown)
   \<and> (\<forall>x. fless (Fin 0) x \<and> fle x (Fin 25) \<longrightarrow> color_logic x = blue)
   \<and> (\<forall>x. fless (Fin 25) x \<longrightarrow> color_logic x = red)
   \<and> (\<forall>x. x = NaN \<or> fle x (Fin 0) \<or> (fless (Fin 0) x \<and> fle x (Fin 25)) \<or> fless (Fin 25) x)
   \<and> distinct [gray, brown, blue, red]
   \<and> color_logic (Fin 25) = blue"
proof -
  have a: "color_logic NaN = gray"
    by (simp add: color_logic_def)
  have b: "color_logic x = brown" if "fle x (Fin 0)" for x
    using that by (cases x) (simp_all add: color_logic_def)
  have c: "color_logic x = blue" if "fless (Fin 0) x \<and> fle x (Fin 25)" for x
    using that by (cases x) (simp_all add: color_logic_def)
  have d: "color_logic x = red" if "fless (Fin 25) x" for x
    using that by (cases x) (simp_all add: color_logic_def)
  have e: "x = NaN \<or> fle x (Fin 0) \<or> (fless (Fin 0) x \<and> fle x (Fin 25)) \<or> fless (Fin 25) x" for x
    by (cases x) auto
  have f: "distinct [gray, brown, blue, red]"
    by (simp add: gray_def brown_def blue_def red_def)
  have g: "color_logic (Fin 25) = blue"
    by (simp add: color_logic_def)
  from a b c d e f g show ?thesis by blast
qed

subsection \<open>Retention of the reading store\<close>

lemma to_datetime_raise_some:
  "to_datetime_raise rs = Inr ps \<Longrightarrow> length ps = length rs"
  by (induction rs arbitrary: ps) (auto split: ts_cell.splits sum.splits)

lemma to_datetime_raise_total:
  "(\<forall>r \<in> set rs. timestamp_utc r \<noteq> TsBad) \<Longrightarrow> \<exists>ps. to_datetime_raise rs = Inr ps"
  by (induction rs) (auto split: ts_cell.splits sum.splits)

text \<open>
  C9. When \<open>append_and_trim\<close> completes, every stored reading has a timestamp, and none
  is older than \<open>now\<close> minus the horizon, whatever the old and new readings are. It
  completes whenever every timestamp cell is an instant or null.
\<close>

theorem append_and_trim_horizon:
  "(append_and_trim df_new file now hours = Inr stored \<longrightarrow>
      (\<forall>r \<in> set stored. \<exists>t. timestamp_utc r = Some t \<and> now - hours * 3600 \<le> t))
   \<and> ((\<forall>r \<in> set (case file of Some df_old \<Rightarrow> df_old @ df_new | None \<Rightarrow> df_new).
          timestamp_utc r \<noteq> TsBad)
        \<longrightarrow> (\<exists>stored'. append_and_trim df_new file now hours = Inr stored'))"
proof (intro conjI impI ballI)
  fix r
  assume ok: "append_and_trim df_new file now hours = Inr stored" and r: "r \<in> set stored"
  then have "ts_ge (timestamp_utc r) (now - hours * 3600)"
    by (auto simp: append_and_trim_def Let_def split: sum.splits)
  then show "\<exists>t. timestamp_utc r = Some t \<and> now - hours * 3600 \<le> t"
    by (cases "timestamp_utc r") simp_all
next
  assume "\<forall>r \<in> set (case file of Some df_old \<Rightarrow> df_old @ df_new | None \<Rightarrow> df_new).
            timestamp_utc r \<noteq> TsBad"
  from to_datetime_raise_total [OF this]
  show "\<exists>stored'. append_and_trim df_new file now hours = Inr stored'"
    by (auto simp: append_and_trim_def Let_def)
qed

theorem append_and_trim_horizon_witness:
  "append_and_trim
     [\<lparr>site_no = 1::nat, site_name = ''a'', timestamp_utc = TsOk 100000, flow_cfs = Fin 5\<rparr>,
      \<lparr>site_no = 1, site_name = ''a'', timestamp_utc = TsOk 5, flow_cfs = Fin 4\<rparr>]
     (Some [\<lparr>site_no = 2, site_name = ''b'', timestamp_utc = TsOk 20000, flow_cfs = NaN\<rparr>,
            \<lparr>site_no = 2, site_name = ''b'', timestamp_utc = TsNull, flow_cfs = Fin 1\<rparr>])
     100000 24
   = Inr [\<lparr>site_no = 2, site_name = ''b'', timestamp_utc = Some 20000, flow_cfs = NaN\<rparr>,
          \<lparr>site_no = 1, site_name = ''a'', timestamp_utc = Some 100000, flow_cfs = Fin 5\<rparr>]
   \<and> list_all (\<lambda>r. \<exists>t. timestamp_utc r = Some t \<and> (100000::int) - 24 * 3600 \<le> t)
        [\<lparr>site_no = 2::nat, site_name = ''b'', timestamp_utc = Some 20000, flow_cfs = NaN\<rparr>,
         \<lparr>site_no = 1, site_name = ''a'', timestamp_utc = Some 100000, flow_cfs = Fin 5\<rparr>]"
proof -
  have run: "append_and_trim
     [\<lparr>site_no = 1::nat, site_name = ''a'', timestamp_utc = TsOk 100000, flow_cfs = Fin 5\<rparr>,
      \<lparr>site_no = 1, site_name = ''a'', timestamp_utc = TsOk 5, flow_cfs = Fin 4\<rparr>]
     (Some [\<lparr>site_no = 2, site_name = ''b'', timestamp_utc = TsOk 20000, flow_cfs = NaN\<rparr>,
            \<lparr>site_no = 2, site_name = ''b'', timestamp_utc = TsNull, flow_cfs = Fin 1\<rparr>])
     100000 24
   = Inr [\<lparr>site_no = 2, site_name = ''b'', timestamp_utc = Some 20000, flow_cfs = NaN\<rparr>,
          \<lparr>site_no = 1, site_name = ''a'', timestamp_utc = Some 100000, flow_cfs = Fin 5\<rparr>]"
    by (simp add: append_and_trim_def set_timestamp_def)
  from append_and_trim_horizon [THEN conjunct1, rule_format, OF run] run
  show ?thesis unfolding list_all_iff by blast
qed

subsection \<open>Rate of change over sample counts\<close>

lemma window_of_simps [simp]:
  "window_of ''1h'' = 12" "window_of ''3h'' = 36" "window_of ''6h'' = 72"
  by (simp_all add: window_of_def WINDOWS_def)

lemma length_shift [simp]: "length (shift w x) = length x"
  by (simp add: shift_def)

lemma shift_nth:
  "t < length x \<Longrightarrow> shift w x ! t = (if t < w then NaN else x ! (t - w))"
  by (simp add: shift_def nth_append)

lemma length_pct_change_window [simp]: "length (pct_change_window w x) = length x"
  by (simp add: pct_change_window_def)

lemma fdiv_NaN_right [simp]: "fdiv a NaN = NaN"
  by (cases a) simp_all

lemma fmul_NaN_left [simp]: "fmul NaN b = NaN"
  by simp

lemma pct_change_window_nth:
  "t < length x \<Longrightarrow>
     pct_change_window w x ! t =
       (if t < w then NaN
        else fmul (fdiv (fsub (x ! t) (x ! (t - w))) (x ! (t - w))) (Fin 100))"
  by (simp add: pct_change_window_def shift_nth)

text \<open>The rows of one group, picked out of a column that was computed row by row.\<close>

lemma filter_index_map:
  "map (\<lambda>i. F (df ! i) (length (filter P (take i df)))) (filter (\<lambda>i. P (df ! i)) [0..<length df])
   = map (\<lambda>(t, r). F r t) (enumerate 0 (filter P df))"
proof (induction df rule: rev_induct)
  case Nil
  show ?case by simp
next
  case (snoc y ys)
  have idx: "map (\<lambda>i. F ((ys @ [y]) ! i) (length (filter P (take i (ys @ [y])))))
               (filter (\<lambda>i. P ((ys @ [y]) ! i)) [0..<length ys])
             = map (\<lambda>i. F (ys ! i) (length (filter P (take i ys))))
               (filter (\<lambda>i. P (ys ! i)) [0..<length ys])"
  proof -
    have f: "filter (\<lambda>i. P ((ys @ [y]) ! i)) [0..<length ys] = filter (\<lambda>i. P (ys ! i)) [0..<length ys]"
      by (rule filter_cong) (simp_all add: nth_append)
    show ?thesis
      unfolding f by (rule map_cong) (auto simp: nth_append)
  qed
  show ?case
  proof (cases "P y")
    case True
    then show ?thesis
      using snoc idx by (simp add: enumerate_append_eq)
  next
    case False
    then show ?thesis
      using snoc idx by simp
  qed
qed

lemma groupby_transform_length [simp]:
  "length (groupby_transform key col f df) = length df"
  by (simp add: groupby_transform_def)

lemma groupby_transform_nth:
  "i < length df \<Longrightarrow> key (df ! i) = Some k \<Longrightarrow>
     groupby_transform key col f df ! i
       = f (map col (filter (\<lambda>r. key r = Some k) df)) ! length (filter (\<lambda>r. key r = Some k) (take i df))"
  by (simp add: groupby_transform_def)

lemma site_no_add_pct_change [simp]:
  "site_no (add_pct_change r a b c) = site_no r"
  "timestamp_utc (add_pct_change r a b c) = timestamp_utc r"
  "flow_cfs (add_pct_change r a b c) = flow_cfs r"
  "pct_change_1h (add_pct_change r a b c) = a"
  "pct_change_3h (add_pct_change r a b c) = b"
  "pct_change_6h (add_pct_change r a b c) = c"
  by (simp_all add: add_pct_change_def)

text \<open>
  The rows of site \<open>s\<close> in the result of the per-site columns: the rows of the site in
  the sorted frame, each with the value of its place in the site's series.
\<close>

lemma roc_rows_of_site:
  fixes df :: "('s option, int option) reading list" and s :: 's
  defines "grp \<equiv> filter (\<lambda>r. site_no r = Some s) df"
  defines "c1 \<equiv> groupby_transform site_no flow_cfs (pct_change_window 12) df"
  defines "c3 \<equiv> groupby_transform site_no flow_cfs (pct_change_window 36) df"
  defines "c6 \<equiv> groupby_transform site_no flow_cfs (pct_change_window 72) df"
  shows "filter (\<lambda>r. site_no r = Some s)
           (map (\<lambda>i. add_pct_change (df ! i) (c1 ! i) (c3 ! i) (c6 ! i)) [0..<length df])
         = map (\<lambda>(t, r). add_pct_change r
                   (pct_change_window 12 (map flow_cfs grp) ! t)
                   (pct_change_window 36 (map flow_cfs grp) ! t)
                   (pct_change_window 72 (map flow_cfs grp) ! t))
             (enumerate 0 grp)"
proof -
  let ?P = "\<lambda>r::('s option, int option) reading. site_no r = Some s"
  let ?F = "\<lambda>r t. add_pct_change r
                   (pct_change_window 12 (map flow_cfs grp) ! t)
                   (pct_change_window 36 (map flow_cfs grp) ! t)
                   (pct_change_window 72 (map flow_cfs grp) ! t)"
  have "filter (\<lambda>r. site_no r = Some s)
           (map (\<lambda>i. add_pct_change (df ! i) (c1 ! i) (c3 ! i) (c6 ! i)) [0..<length df])
        = map (\<lambda>i. add_pct_change (df ! i) (c1 ! i) (c3 ! i) (c6 ! i))
            (filter (\<lambda>i. ?P (df ! i)) [0..<length df])"
    by (simp add: filter_map comp_def)
  also have "\<dots> = map (\<lambda>i. ?F (df ! i) (length (filter ?P (take i df))))
                     (filter (\<lambda>i. ?P (df ! i)) [0..<length df])"
    by (rule map_cong)
       (auto simp: c1_def c3_def c6_def grp_def groupby_transform_nth)
  also have "\<dots> = map (\<lambda>(t, r). ?F r t) (enumerate 0 (filter ?P df))"
    by (rule filter_index_map)
  finally show ?thesis
    by (simp add: grp_def)
qed

lemma insort_key_pair_const:
  fixes f :: "'a \<Rightarrow> ('c::linorder) \<times> ('d::linorder)"
  assumes "\<forall>x \<in> set (a # ys). f x = (c, g x)"
  shows "insort_key f a ys = insort_key g a ys"
  using assms by (induction ys) (auto simp: less_eq_prod_def)

lemma sort_key_pair_const:
  fixes f :: "'a \<Rightarrow> ('c::linorder) \<times> ('d::linorder)"
  assumes "\<forall>x \<in> set xs. f x = (c, g x)"
  shows "sort_key f xs = sort_key g xs"
  using assms
proof (induction xs)
  case Nil
  show ?case by simp
next
  case (Cons a xs)
  then have ih: "sort_key f xs = sort_key g xs" by simp
  have "\<forall>x \<in> set (a # sort_key g xs). f x = (c, g x)"
    using Cons.prems by simp
  from insort_key_pair_const [OF this] ih show ?case by simp
qed

lemma site_rows_sorted:
  fixes parsed :: "('s::linorder option, int option) reading list"
  shows "filter (\<lambda>r. site_no r = Some s) (sort_key site_time_key parsed)
         = sort_key time_key (filter (\<lambda>r. site_no r = Some s) parsed)"
proof -
  have "filter (\<lambda>r. site_no r = Some s) (sort_key site_time_key parsed)
        = sort_key site_time_key (filter (\<lambda>r. site_no r = Some s) parsed)"
    by (simp add: filter_sort)
  also have "\<dots> = sort_key time_key (filter (\<lambda>r. site_no r = Some s) parsed)"
    by (rule sort_key_pair_const [where c = "(False, Some s)"])
       (simp add: site_time_key_def time_key_def)
  finally show ?thesis .
qed

lemma reading_of_add_pct_change [simp]:
  "reading_of (add_pct_change r a b c) = r"
  by (simp add: reading_of_def add_pct_change_def)

lemma map_enumerate_nth:
  "t < length xs \<Longrightarrow> map (\<lambda>(i, r). F r i) (enumerate 0 xs) ! t = F (xs ! t) t"
  by (simp add: nth_enumerate_eq)

lemma map_reading_of_enumerate:
  "map reading_of (map (\<lambda>(t, r). add_pct_change r (a t) (b t) (c t)) (enumerate 0 xs)) = xs"
proof -
  have "map reading_of (map (\<lambda>(t, r). add_pct_change r (a t) (b t) (c t)) (enumerate 0 xs))
        = map snd (enumerate 0 xs)"
    by (simp add: case_prod_unfold comp_def)
  then show ?thesis by simp
qed

text \<open>
  What \<open>compute_rate_of_change\<close> returns for one site \<open>s\<close>: the rows of the site, in the
  stable order of their timestamps, and in each row the three values of its place in
  the series of the site's flows.
\<close>

lemma compute_rate_of_change_site:
  fixes df0 :: "('s::linorder option, ts_cell) reading list" and s :: 's
  assumes "to_datetime_raise df0 = Inr parsed"
  defines "series \<equiv> sort_key time_key (filter (\<lambda>r. site_no r = Some s) parsed)"
  shows "\<exists>out. compute_rate_of_change df0 = Inr out \<and>
           filter (\<lambda>r. site_no r = Some s) out
           = map (\<lambda>(t, r). add_pct_change r
                   (pct_change_window 12 (map flow_cfs series) ! t)
                   (pct_change_window 36 (map flow_cfs series) ! t)
                   (pct_change_window 72 (map flow_cfs series) ! t))
               (enumerate 0 series)"
proof -
  let ?df = "sort_key site_time_key parsed"
  have grp: "filter (\<lambda>r. site_no r = Some s) ?df = series"
    unfolding series_def by (rule site_rows_sorted)
  have "compute_rate_of_change df0
        = Inr (map (\<lambda>i. add_pct_change (?df ! i)
                 (groupby_transform site_no flow_cfs (pct_change_window 12) ?df ! i)
                 (groupby_transform site_no flow_cfs (pct_change_window 36) ?df ! i)
                 (groupby_transform site_no flow_cfs (pct_change_window 72) ?df ! i))
               [0..<length ?df])"
    using assms(1) by (simp add: compute_rate_of_change_def Let_def del: length_sort)
  moreover note roc_rows_of_site [of s ?df, unfolded grp]
  ultimately show ?thesis by blast
qed

text \<open>
  C4. For every site \<open>s\<close>, the rows of the site in the result are the readings of the
  site in ascending order of timestamp (a stable sort, NaT last), and the value of each
  window \<open>w\<close> (12, 36 and 72 samples) at position \<open>t\<close> of that sequence is
  \<open>(v[t] - v[t-w]) / v[t-w] * 100\<close>, with \<open>v[t-w]\<close> the flow \<open>w\<close> positions earlier in the
  sequence, whatever the timestamps are. For the series 10, 12, 15, 20 and window 1 the
  last value is \<open>(20 - 15) / 15 * 100\<close>.
\<close>

theorem compute_rate_of_change_offset:
  fixes df0 :: "('s::linorder option, ts_cell) reading list"
  assumes "to_datetime_raise df0 = Inr parsed"
  shows "(\<exists>out. compute_rate_of_change df0 = Inr out \<and>
           (let grp = filter (\<lambda>r. site_no r = Some s) out;
                v = (\<lambda>i. flow_cfs (grp ! i))
            in map reading_of grp = sort_key time_key (filter (\<lambda>r. site_no r = Some s) parsed)
               \<and> (\<forall>t. 12 \<le> t \<and> t < length grp \<longrightarrow>
                     pct_change_1h (grp ! t)
                       = fmul (fdiv (fsub (v t) (v (t - 12))) (v (t - 12))) (Fin 100))
               \<and> (\<forall>t. 36 \<le> t \<and> t < length grp \<longrightarrow>
                     pct_change_3h (grp ! t)
                       = fmul (fdiv (fsub (v t) (v (t - 36))) (v (t - 36))) (Fin 100))
               \<and> (\<forall>t. 72 \<le> t \<and> t < length grp \<longrightarrow>
                     pct_change_6h (grp ! t)
                       = fmul (fdiv (fsub (v t) (v (t - 72))) (v (t - 72))) (Fin 100))))
         \<and> pct_change_window 1 [Fin 10, Fin 12, Fin 15, Fin 20] ! 3 = Fin ((20 - 15) / 15 * 100)"
proof -
  define series where "series = sort_key time_key (filter (\<lambda>r. site_no r = Some s) parsed)"
  from compute_rate_of_change_site [OF assms, of s]
  obtain out where out: "compute_rate_of_change df0 = Inr out"
    and grp: "filter (\<lambda>r. site_no r = Some s) out
           = map (\<lambda>(t, r). add_pct_change r
                   (pct_change_window 12 (map flow_cfs series) ! t)
                   (pct_change_window 36 (map flow_cfs series) ! t)
                   (pct_change_window 72 (map flow_cfs series) ! t))
               (enumerate 0 series)" (is "?grp = ?rows")
    unfolding series_def by blast
  have len: "length ?grp = length series"
    by (simp add: grp)
  have rd: "map reading_of ?grp = series"
    unfolding grp by (rule map_reading_of_enumerate)
  have flow: "flow_cfs (?grp ! i) = flow_cfs (series ! i)" if "i < length series" for i
    using that by (simp add: grp nth_enumerate_eq)
  have w: "(if w = 12 then pct_change_1h (?grp ! t)
            else if w = 36 then pct_change_3h (?grp ! t) else pct_change_6h (?grp ! t))
           = fmul (fdiv (fsub (flow_cfs (?grp ! t)) (flow_cfs (?grp ! (t - w))))
                  (flow_cfs (?grp ! (t - w)))) (Fin 100)"
    if "w \<le> t" "t < length ?grp" "w \<in> {12, 36, 72}" for w t
  proof -
    from that have t: "t < length series" and tw: "t - w < length series"
      by (simp_all add: len)
    have "pct_change_window w (map flow_cfs series) ! t
          = fmul (fdiv (fsub (flow_cfs (series ! t)) (flow_cfs (series ! (t - w))))
                  (flow_cfs (series ! (t - w)))) (Fin 100)"
      using t tw that(1) by (simp add: pct_change_window_nth)
    moreover have "(if w = 12 then pct_change_1h (?grp ! t)
            else if w = 36 then pct_change_3h (?grp ! t) else pct_change_6h (?grp ! t))
          = pct_change_window w (map flow_cfs series) ! t"
      using t that(3) by (auto simp: grp nth_enumerate_eq)
    ultimately show ?thesis
      using t tw by (simp add: flow)
  qed
  have ex: "pct_change_window 1 [Fin 10, Fin 12, Fin 15, Fin 20] ! 3 = Fin ((20 - 15) / 15 * 100)"
    by (simp add: pct_change_window_def shift_def fsub_def)
  have w12: "\<forall>t. 12 \<le> t \<and> t < length ?grp \<longrightarrow> pct_change_1h (?grp ! t)
      = fmul (fdiv (fsub (flow_cfs (?grp ! t)) (flow_cfs (?grp ! (t - 12))))
                  (flow_cfs (?grp ! (t - 12)))) (Fin 100)"
    using w [of 12] by simp
  have w36: "\<forall>t. 36 \<le> t \<and> t < length ?grp \<longrightarrow> pct_change_3h (?grp ! t)
      = fmul (fdiv (fsub (flow_cfs (?grp ! t)) (flow_cfs (?grp ! (t - 36))))
                  (flow_cfs (?grp ! (t - 36)))) (Fin 100)"
    using w [of 36] by simp
  have w72: "\<forall>t. 72 \<le> t \<and> t < length ?grp \<longrightarrow> pct_change_6h (?grp ! t)
      = fmul (fdiv (fsub (flow_cfs (?grp ! t)) (flow_cfs (?grp ! (t - 72))))
                  (flow_cfs (?grp ! (t - 72)))) (Fin 100)"
    using w [of 72] by simp
  show ?thesis
    unfolding Let_def
    using out rd w12 w36 w72 ex unfolding series_def by blast
qed

lemma sample_frame_parsed: "to_datetime_raise sample_frame = Inr sample_parsed"
  by code_simp

theorem compute_rate_of_change_offset_witness:
  "to_datetime_raise sample_frame = Inr sample_parsed
   \<and> (\<exists>out. compute_rate_of_change sample_frame = Inr out \<and>
           (let grp = filter (\<lambda>r. site_no r = Some 1) out;
                v = (\<lambda>i. flow_cfs (grp ! i))
            in map reading_of grp = sort_key time_key (filter (\<lambda>r. site_no r = Some 1) sample_parsed)
               \<and> (\<forall>t. 12 \<le> t \<and> t < length grp \<longrightarrow>
                     pct_change_1h (grp ! t)
                       = fmul (fdiv (fsub (v t) (v (t - 12))) (v (t - 12))) (Fin 100))
               \<and> (\<forall>t. 36 \<le> t \<and> t < length grp \<longrightarrow>
                     pct_change_3h (grp ! t)
                       = fmul (fdiv (fsub (v t) (v (t - 36))) (v (t - 36))) (Fin 100))
               \<and> (\<forall>t. 72 \<le> t \<and> t < length grp \<longrightarrow>
                     pct_change_6h (grp ! t)
                       = fmul (fdiv (fsub (v t) (v (t - 72))) (v (t - 72))) (Fin 100))))
   \<and> pct_change_window 1 [Fin 10, Fin 12, Fin 15, Fin 20] ! 3 = Fin ((20 - 15) / 15 * 100)"
  using compute_rate_of_change_offset [OF sample_frame_parsed, of 1] sample_frame_parsed
  by simp

text \<open>
  C3. In the sample frame the reading twelve positions before the last one has flow 0
  and the last one has flow 5: the 1-hour value of the last row is \<open>+inf\<close>, not null.
  (For the first twelve rows, which have no predecessor, the value is null.)
\<close>

theorem compute_rate_of_change_zero_predecessor:
  "map_sum id (map (\<lambda>r. (flow_cfs r, pct_change_1h r))) (compute_rate_of_change sample_frame)
     = Inr ((Fin 0, NaN) # replicate 11 (Fin 5, NaN) @ [(Fin 5, PosInf)])"
  by code_simp

subsection \<open>Rate of change against the nearest reading\<close>

lemma masked_Cons:
  "masked tg (r # rs) =
     (case time_diff tg r of
        None \<Rightarrow> masked tg rs
      | Some d \<Rightarrow> if d \<le> 30 * 60 then (d, flow_cfs r) # masked tg rs else masked tg rs)"
  by (simp add: masked_def split: option.splits)

lemma masked_Nil [simp]: "masked tg [] = []"
  by (simp add: masked_def)

lemma in_masked_iff:
  "(d, f) \<in> set (masked tg rs)
     \<longleftrightarrow> (\<exists>r \<in> set rs. time_diff tg r = Some d \<and> d \<le> 30 * 60 \<and> f = flow_cfs r)"
  by (induction rs) (auto simp: masked_Cons split: option.splits)

lemma masked_empty_iff:
  "masked tg rs = [] \<longleftrightarrow> (\<forall>r \<in> set rs. \<forall>d. time_diff tg r = Some d \<longrightarrow> \<not> d \<le> 30 * 60)"
  by (induction rs) (auto simp: masked_Cons split: option.splits)

text \<open>
  The row that \<open>argmin\<close> selects: the first row of the group whose distance is the
  smallest among the rows under the mask.
\<close>

lemma masked_argmin:
  "masked tg grp \<noteq> [] \<Longrightarrow>
     \<exists>pre c post dc.
       grp = pre @ c # post
       \<and> time_diff tg c = Some dc \<and> dc \<le> 30 * 60
       \<and> masked tg grp ! argmin (map fst (masked tg grp)) = (dc, flow_cfs c)
       \<and> (\<forall>r \<in> set pre. \<forall>d. time_diff tg r = Some d \<and> d \<le> 30 * 60 \<longrightarrow> dc < d)
       \<and> (\<forall>r \<in> set post. \<forall>d. time_diff tg r = Some d \<and> d \<le> 30 * 60 \<longrightarrow> dc \<le> d)"
proof (induction grp)
  case Nil
  then show ?case by simp
next
  case (Cons r rs)
  show ?case
  proof (cases "\<exists>d. time_diff tg r = Some d \<and> d \<le> 30 * 60")
    case False
    then have m: "masked tg (r # rs) = masked tg rs"
      by (auto simp: masked_Cons split: option.splits)
    with Cons.prems have "masked tg rs \<noteq> []" by simp
    from Cons.IH [OF this] obtain pre c post dc where
      h: "rs = pre @ c # post" "time_diff tg c = Some dc" "dc \<le> 30 * 60"
         "masked tg rs ! argmin (map fst (masked tg rs)) = (dc, flow_cfs c)"
         "\<forall>r \<in> set pre. \<forall>d. time_diff tg r = Some d \<and> d \<le> 30 * 60 \<longrightarrow> dc < d"
         "\<forall>r \<in> set post. \<forall>d. time_diff tg r = Some d \<and> d \<le> 30 * 60 \<longrightarrow> dc \<le> d"
      by blast
    have "r # rs = (r # pre) @ c # post" using h(1) by simp
    moreover have "\<forall>x \<in> set (r # pre). \<forall>d. time_diff tg x = Some d \<and> d \<le> 30 * 60 \<longrightarrow> dc < d"
      using h(5) False by auto
    ultimately show ?thesis
      using h(2,3,4,6) unfolding m by blast
  next
    case True
    then obtain d where d: "time_diff tg r = Some d" "d \<le> 30 * 60" by blast
    then have m: "masked tg (r # rs) = (d, flow_cfs r) # masked tg rs"
      by (simp add: masked_Cons)
    show ?thesis
    proof (cases "list_all (\<lambda>y. d \<le> y) (map fst (masked tg rs))")
      case True
      then have sel: "masked tg (r # rs) ! argmin (map fst (masked tg (r # rs))) = (d, flow_cfs r)"
        by (simp add: m)
      have "\<forall>x \<in> set rs. \<forall>d'. time_diff tg x = Some d' \<and> d' \<le> 30 * 60 \<longrightarrow> d \<le> d'"
      proof (intro ballI allI impI)
        fix x d'
        assume "x \<in> set rs" "time_diff tg x = Some d' \<and> d' \<le> 30 * 60"
        then have "(d', flow_cfs x) \<in> set (masked tg rs)"
          by (auto simp: in_masked_iff)
        then have "d' \<in> set (map fst (masked tg rs))" by force
        with True show "d \<le> d'" by (auto simp: list_all_iff)
      qed
      moreover have "r # rs = [] @ r # rs" by simp
      ultimately show ?thesis
        using d sel by (metis empty_iff list.set(1))
    next
      case False
      then have ne: "masked tg rs \<noteq> []" by auto
      from Cons.IH [OF ne] obtain pre c post dc where
        h: "rs = pre @ c # post" "time_diff tg c = Some dc" "dc \<le> 30 * 60"
           "masked tg rs ! argmin (map fst (masked tg rs)) = (dc, flow_cfs c)"
           "\<forall>r \<in> set pre. \<forall>d. time_diff tg r = Some d \<and> d \<le> 30 * 60 \<longrightarrow> dc < d"
           "\<forall>r \<in> set post. \<forall>d. time_diff tg r = Some d \<and> d \<le> 30 * 60 \<longrightarrow> dc \<le> d"
        by blast
      have sel: "masked tg (r # rs) ! argmin (map fst (masked tg (r # rs))) = (dc, flow_cfs c)"
        using False h(4) by (simp add: m)
      from False obtain y f where yf: "(y, f) \<in> set (masked tg rs)" and y: "y < d"
        by (fastforce simp: list_all_iff)
      from yf obtain x where x: "x \<in> set rs" "time_diff tg x = Some y" "y \<le> 30 * 60"
        by (auto simp: in_masked_iff)
      have "dc \<le> y"
      proof -
        from x(1) h(1) consider "x \<in> set pre" | "x = c" | "x \<in> set post" by auto
        then show ?thesis
        proof cases
          case 1 with h(5) x show ?thesis by force
        next
          case 2 with h(2) x show ?thesis by simp
        next
          case 3 with h(6) x show ?thesis by force
        qed
      qed
      with y have "dc < d" by simp
      then have "\<forall>x \<in> set (r # pre). \<forall>d'. time_diff tg x = Some d' \<and> d' \<le> 30 * 60 \<longrightarrow> dc < d'"
        using h(5) d by auto
      moreover have "r # rs = (r # pre) @ c # post" using h(1) by simp
      ultimately show ?thesis
        using h(2,3,6) sel by blast
    qed
  qed
qed

lemma nonzero_iff: "nonzero f \<longleftrightarrow> f \<noteq> Fin 0"
  by (cases f) simp_all

lemma group_keys_iff:
  "s \<in> set (group_keys df) \<longleftrightarrow> (\<exists>r \<in> set df. site_no r = Some s)"
proof -
  have "set (List.map_filter site_no df) = {s. \<exists>r \<in> set df. site_no r = Some s}"
    by (induction df) (auto split: option.splits)
  then show ?thesis
    by (simp add: group_keys_def)
qed

lemma group_of_nonempty:
  "s \<in> set (group_keys df) \<Longrightarrow> group_of s df \<noteq> []"
  by (auto simp: group_keys_iff group_of_def filter_empty_conv)

lemma sorted_pair_const:
  fixes f :: "'a \<Rightarrow> ('c::linorder) \<times> ('d::linorder)"
  assumes "sorted (map f xs)" and "\<forall>x \<in> set xs. f x = (c, g x)"
  shows "sorted (map g xs)"
proof -
  from assms(1) have "sorted_wrt (\<lambda>x y. f x \<le> f y) xs"
    by (simp add: sorted_map)
  then have "sorted_wrt (\<lambda>x y. g x \<le> g y) xs"
    by (rule sorted_wrt_mono_rel [rotated]) (use assms(2) in \<open>auto simp: less_eq_prod_def\<close>)
  then show ?thesis
    by (simp add: sorted_map)
qed

lemma sorted_le_last:
  fixes xs :: "('a::linorder) list"
  assumes "sorted xs" and "x \<in> set xs"
  shows "x \<le> last xs"
  using assms by (induction xs) (auto simp: last_ConsR)

lemma group_last_latest:
  fixes df :: "('s::linorder option, int option, 'm) reading_scheme list"
  assumes "sorted (map site_time_key df)" and "r \<in> set (group_of s df)"
  shows "time_key r \<le> time_key (last (group_of s df))"
proof -
  have "sorted (map site_time_key (group_of s df))"
    unfolding group_of_def using assms(1) by (rule sorted_filter)
  then have "sorted (map time_key (group_of s df))"
    by (rule sorted_pair_const [where c = "(False, Some s)"])
       (simp add: group_of_def site_time_key_def time_key_def)
  moreover have "time_key r \<in> set (map time_key (group_of s df))"
    using assms(2) by simp
  ultimately have "time_key r \<le> last (map time_key (group_of s df))"
    by (rule sorted_le_last)
  moreover have "group_of s df \<noteq> []" using assms(2) by auto
  ultimately show ?thesis by (simp add: last_map)
qed

text \<open>
  C5. For the \<open>i\<close>-th site of the frame, with \<open>grp\<close> the rows of the site, the latest
  row the last of them and the target three hours before its timestamp: if no row
  of the site lies within 30 minutes of the target the result is null; otherwise the
  row selected is a row within 30 minutes of the target whose distance \<open>dc\<close> is the
  smallest (the first such row of the group), and the result is
  \<open>(latest - candidate) / candidate * 100\<close>, null when the candidate's flow is zero.
  In a frame sorted by site and time the last row of a group has the greatest
  timestamp. In the example, 50 at 12:00 against 40 at 09:10 gives 25, and against a
  reading at 08:20 gives null.
\<close>

theorem compute_pct_change_3h_nearest:
  fixes df :: "('s::linorder option, int option) reading list"
  assumes "i < length (group_keys df)"
    and "grp = group_of (group_keys df ! i) df"
    and "timestamp_utc (last grp) = Some latest_time"
    and "target = latest_time - 3 * 3600"
  shows "grp \<noteq> []
     \<and> ((\<forall>r \<in> set grp. \<forall>d. time_diff target r = Some d \<longrightarrow> \<not> d \<le> 30 * 60)
          \<longrightarrow> compute_pct_change_3h df ! i = NaN)
     \<and> ((\<exists>r \<in> set grp. \<exists>d. time_diff target r = Some d \<and> d \<le> 30 * 60)
          \<longrightarrow> (\<exists>pre c post dc.
                 grp = pre @ c # post
                 \<and> time_diff target c = Some dc \<and> dc \<le> 30 * 60
                 \<and> (\<forall>r \<in> set pre. \<forall>d. time_diff target r = Some d \<and> d \<le> 30 * 60 \<longrightarrow> dc < d)
                 \<and> (\<forall>r \<in> set post. \<forall>d. time_diff target r = Some d \<and> d \<le> 30 * 60 \<longrightarrow> dc \<le> d)
                 \<and> compute_pct_change_3h df ! i
                     = (if flow_cfs c = Fin 0 then NaN
                        else fmul (fdiv (fsub (flow_cfs (last grp)) (flow_cfs c)) (flow_cfs c))
                               (Fin 100))))
     \<and> (sorted (map site_time_key df) \<longrightarrow> (\<forall>r \<in> set grp. time_key r \<le> time_key (last grp)))
     \<and> compute_pct_change_3h gauge_example = [Fin 25]
     \<and> compute_pct_change_3h gauge_example_far = [NaN]"
proof -
  have key: "group_keys df ! i \<in> set (group_keys df)"
    using assms(1) by simp
  have ne: "grp \<noteq> []"
    unfolding assms(2) using key by (rule group_of_nonempty)
  have val: "compute_pct_change_3h df ! i = pct_change_of_group grp"
    using assms(1) by (simp add: compute_pct_change_3h_def assms(2))
  have far: "compute_pct_change_3h df ! i = NaN"
    if "\<forall>r \<in> set grp. \<forall>d. time_diff target r = Some d \<longrightarrow> \<not> d \<le> 30 * 60"
  proof -
    from that have "masked target grp = []"
      by (simp add: masked_empty_iff)
    then show ?thesis
      unfolding val using assms(3,4) by (simp add: pct_change_of_group_def Let_def)
  qed
  have near: "\<exists>pre c post dc.
                 grp = pre @ c # post
                 \<and> time_diff target c = Some dc \<and> dc \<le> 30 * 60
                 \<and> (\<forall>r \<in> set pre. \<forall>d. time_diff target r = Some d \<and> d \<le> 30 * 60 \<longrightarrow> dc < d)
                 \<and> (\<forall>r \<in> set post. \<forall>d. time_diff target r = Some d \<and> d \<le> 30 * 60 \<longrightarrow> dc \<le> d)
                 \<and> compute_pct_change_3h df ! i
                     = (if flow_cfs c = Fin 0 then NaN
                        else fmul (fdiv (fsub (flow_cfs (last grp)) (flow_cfs c)) (flow_cfs c))
                               (Fin 100))"
    if "\<exists>r \<in> set grp. \<exists>d. time_diff target r = Some d \<and> d \<le> 30 * 60"
  proof -
    from that have m: "masked target grp \<noteq> []"
      by (auto simp: masked_empty_iff)
    from masked_argmin [OF m] obtain pre c post dc where
      h: "grp = pre @ c # post" "time_diff target c = Some dc" "dc \<le> 30 * 60"
         "masked target grp ! argmin (map fst (masked target grp)) = (dc, flow_cfs c)"
         "\<forall>r \<in> set pre. \<forall>d. time_diff target r = Some d \<and> d \<le> 30 * 60 \<longrightarrow> dc < d"
         "\<forall>r \<in> set post. \<forall>d. time_diff target r = Some d \<and> d \<le> 30 * 60 \<longrightarrow> dc \<le> d"
      by blast
    have "pct_change_of_group grp
          = (if flow_cfs c = Fin 0 then NaN
             else fmul (fdiv (fsub (flow_cfs (last grp)) (flow_cfs c)) (flow_cfs c)) (Fin 100))"
      using m h(4) assms(3,4) by (simp add: pct_change_of_group_def Let_def nonzero_iff)
    with h(1,2,3,5,6) show ?thesis
      unfolding val by blast
  qed
  have latest: "\<forall>r \<in> set grp. time_key r \<le> time_key (last grp)"
    if "sorted (map site_time_key df)"
    unfolding assms(2) using group_last_latest [OF that] by blast
  have e1: "compute_pct_change_3h gauge_example = [Fin 25]"
    by code_simp
  have e2: "compute_pct_change_3h gauge_example_far = [NaN]"
    by code_simp
  from ne far near latest e1 e2 show ?thesis by blast
qed

lemma gauge_example_group:
  "group_of (group_keys gauge_example ! 0) gauge_example = gauge_example"
  by code_simp

theorem compute_pct_change_3h_nearest_witness:
  "0 < length (group_keys gauge_example)
   \<and> timestamp_utc (last (group_of (group_keys gauge_example ! 0) gauge_example)) = Some (12 * 3600)
   \<and> (\<exists>r \<in> set (group_of (group_keys gauge_example ! 0) gauge_example).
         \<exists>d. time_diff (12 * 3600 - 3 * 3600) r = Some d \<and> d \<le> 30 * 60)
   \<and> (\<exists>pre c post dc.
         group_of (group_keys gauge_example ! 0) gauge_example = pre @ c # post
         \<and> time_diff (12 * 3600 - 3 * 3600) c = Some dc \<and> dc \<le> 30 * 60
         \<and> (\<forall>r \<in> set pre. \<forall>d. time_diff (12 * 3600 - 3 * 3600) r = Some d \<and> d \<le> 30 * 60 \<longrightarrow> dc < d)
         \<and> (\<forall>r \<in> set post. \<forall>d. time_diff (12 * 3600 - 3 * 3600) r = Some d \<and> d \<le> 30 * 60 \<longrightarrow> dc \<le> d)
         \<and> compute_pct_change_3h gauge_example ! 0
             = (if flow_cfs c = Fin 0 then NaN
                else fmul (fdiv (fsub (flow_cfs (last (group_of (group_keys gauge_example ! 0) gauge_example)))
                                  (flow_cfs c)) (flow_cfs c)) (Fin 100)))"
proof -
  let ?grp = "group_of (group_keys gauge_example ! 0) gauge_example"
  have h1: "0 < length (group_keys gauge_example)"
    by code_simp
  have h3: "timestamp_utc (last ?grp) = Some (12 * 3600)"
    unfolding gauge_example_group by (simp add: gauge_example_def)
  have h5: "\<exists>r \<in> set ?grp. \<exists>d. time_diff (12 * 3600 - 3 * 3600) r = Some d \<and> d \<le> 30 * 60"
    unfolding gauge_example_group by (simp add: gauge_example_def time_diff_def)
  from compute_pct_change_3h_nearest [OF h1 refl h3 refl] h5
  have "\<exists>pre c post dc.
         ?grp = pre @ c # post
         \<and> time_diff (12 * 3600 - 3 * 3600) c = Some dc \<and> dc \<le> 30 * 60
         \<and> (\<forall>r \<in> set pre. \<forall>d. time_diff (12 * 3600 - 3 * 3600) r = Some d \<and> d \<le> 30 * 60 \<longrightarrow> dc < d)
         \<and> (\<forall>r \<in> set post. \<forall>d. time_diff (12 * 3600 - 3 * 3600) r = Some d \<and> d \<le> 30 * 60 \<longrightarrow> dc \<le> d)
         \<and> compute_pct_change_3h gauge_example ! 0
             = (if flow_cfs c = Fin 0 then NaN
                else fmul (fdiv (fsub (flow_cfs (last ?grp)) (flow_cfs c)) (flow_cfs c)) (Fin 100))"
    by blast
  with h1 h3 h5 show ?thesis by blast
qed

subsection \<open>Comparison with the baseline\<close>

lemma to_datetime_raise_map_flow:
  "to_datetime_raise rs = Inr ps \<Longrightarrow> map flow_cfs ps = map flow_cfs rs"
  by (induction rs arbitrary: ps)
     (auto simp: set_timestamp_def split: ts_cell.splits sum.splits)

lemma to_datetime_raise_flows:
  "to_datetime_raise rs = Inr ps \<Longrightarrow> flow_cfs ` set ps = flow_cfs ` set rs"
  by (drule to_datetime_raise_map_flow) (metis set_map)

lemma compute_rate_of_change_flows:
  assumes "compute_rate_of_change df0 = Inr out"
  shows "flow_cfs ` set out = flow_cfs ` set df0"
proof -
  from assms obtain parsed where p: "to_datetime_raise df0 = Inr parsed"
    by (auto simp: compute_rate_of_change_def split: sum.splits)
  let ?df = "sort_key site_time_key parsed"
  have out: "out = map (\<lambda>i. add_pct_change (?df ! i)
                 (groupby_transform site_no flow_cfs (pct_change_window 12) ?df ! i)
                 (groupby_transform site_no flow_cfs (pct_change_window 36) ?df ! i)
                 (groupby_transform site_no flow_cfs (pct_change_window 72) ?df ! i))
               [0..<length ?df]"
    using assms p by (simp add: compute_rate_of_change_def Let_def del: length_sort)
  have "map flow_cfs out = map flow_cfs ?df"
    unfolding out by (rule nth_equalityI) simp_all
  then have "flow_cfs ` set out = flow_cfs ` set ?df"
    by (metis set_map)
  also have "\<dots> = flow_cfs ` set parsed" by simp
  also have "\<dots> = flow_cfs ` set df0" using p by (rule to_datetime_raise_flows)
  finally show ?thesis .
qed

lemma prepare_current_data_filter:
  "prepare_current_data df =
     map (\<lambda>r. add_day_of_year r (map_option dayofyear (timestamp_utc r)))
       (filter (\<lambda>r. timestamp_utc r \<noteq> None \<and> flow_cfs r \<noteq> NaN \<and> site_no r \<noteq> None) df)"
proof -
  have isna: "isna x \<longleftrightarrow> x = NaN" for x by (cases x) simp_all
  show ?thesis
    by (simp add: prepare_current_data_def filter_map comp_def add_day_of_year_def isna)
qed

lemma prepared_rows:
  assumes "r \<in> set (prepare_current_data df)"
  shows "flow_cfs r \<noteq> NaN \<and> site_no r \<noteq> None \<and> timestamp_utc r \<noteq> None
         \<and> flow_cfs r \<in> flow_cfs ` set df
         \<and> day_of_year r = map_option dayofyear (timestamp_utc r)"
  using assms by (auto simp: prepare_current_data_filter add_day_of_year_def)

lemma compared_rows:
  assumes "c \<in> set (compare_to_historical cur hist)"
  shows "\<exists>r \<in> set cur. \<exists>p. c = classify r p"
  using assms by (auto simp: compare_to_historical_def Let_def split: if_splits)

lemma classify_fields [simp]:
  "flow_cfs (classify r p) = flow_cfs r"
  "site_no (classify r p) = site_no r"
  "timestamp_utc (classify r p) = timestamp_utc r"
  "p90_flow_cfs (classify r p) = p"
  "ratio (classify r p) = (if p = NaN \<or> p = Fin 0 then NaN else fdiv (flow_cfs r) p)"
  "high_flow (classify r p) = fle (Fin 1) (ratio (classify r p))"
  by (cases p; simp add: classify_def Let_def)+

lemma main_rows:
  assumes "compare_p90_roc_main df hist_file = Inr (Some out)" and "c \<in> set out"
  shows "\<exists>r p. c = classify r p \<and> flow_cfs r \<noteq> NaN \<and> site_no r \<noteq> None
               \<and> timestamp_utc r \<noteq> None \<and> flow_cfs r \<in> flow_cfs ` set df"
proof -
  from assms(1) obtain roc hist where
    roc: "compute_rate_of_change df = Inr roc" and
    out: "out = compare_to_historical (prepare_current_data roc) hist"
    by (auto simp: compare_p90_roc_main_def Let_def split: if_splits sum.splits option.splits)
  from assms(2) out obtain r p where
    r: "r \<in> set (prepare_current_data roc)" and c: "c = classify r p"
    using compared_rows by blast
  from prepared_rows [OF r] compute_rate_of_change_flows [OF roc] c
  show ?thesis by blast
qed

text \<open>
  C10. \<open>prepare_current_data\<close> keeps exactly the rows whose timestamp, flow and site are
  not null (and gives each the day of the year of its timestamp); so every record that
  \<open>main\<close> writes has a flow, a site and a timestamp that are not null.
\<close>

theorem prepare_current_data_drops_nulls:
  "prepare_current_data df0 =
     map (\<lambda>r. add_day_of_year r (map_option dayofyear (timestamp_utc r)))
       (filter (\<lambda>r. timestamp_utc r \<noteq> None \<and> flow_cfs r \<noteq> NaN \<and> site_no r \<noteq> None) df0)
   \<and> (compare_p90_roc_main df hist_file = Inr (Some out) \<longrightarrow>
        (\<forall>c \<in> set out. flow_cfs c \<noteq> NaN \<and> site_no c \<noteq> None \<and> timestamp_utc c \<noteq> None))"
proof (intro conjI impI ballI)
  show "prepare_current_data df0 =
     map (\<lambda>r. add_day_of_year r (map_option dayofyear (timestamp_utc r)))
       (filter (\<lambda>r. timestamp_utc r \<noteq> None \<and> flow_cfs r \<noteq> NaN \<and> site_no r \<noteq> None) df0)"
    by (rule prepare_current_data_filter)
next
  fix c
  assume "compare_p90_roc_main df hist_file = Inr (Some out)" "c \<in> set out"
  from main_rows [OF this] show "flow_cfs c \<noteq> NaN" "site_no c \<noteq> None" "timestamp_utc c \<noteq> None"
    by auto
qed

lemma mixed_frame_out:
  "compare_p90_roc_main mixed_frame (Some sample_hist)
   = Inr (Some [\<lparr>site_no = Some 7, site_name = ''g'', timestamp_utc = Some evening_instant,
                  flow_cfs = Fin 100, pct_change_1h = NaN, pct_change_3h = NaN,
                  pct_change_6h = NaN, p90_flow_cfs = Fin 5, ratio = Fin 20, high_flow = True\<rparr>])"
  by code_simp

theorem prepare_current_data_drops_nulls_witness:
  "\<exists>out. compare_p90_roc_main mixed_frame (Some sample_hist) = Inr (Some out)
         \<and> length out = 1
         \<and> list_all (\<lambda>c. flow_cfs c \<noteq> NaN \<and> site_no c \<noteq> None \<and> timestamp_utc c \<noteq> None) out"
  using prepare_current_data_drops_nulls [of "[]" mixed_frame "Some sample_hist", THEN conjunct2, rule_format, OF mixed_frame_out]
    mixed_frame_out
  unfolding list_all_iff by fastforce

subsection \<open>Ratio and flag\<close>

lemma fdiv_not_NaN:
  assumes "a \<noteq> NaN" "a \<noteq> PosInf" "a \<noteq> NegInf" "p \<noteq> NaN" "p \<noteq> Fin 0"
  shows "fdiv a p \<noteq> NaN"
  using assms by (cases a; cases p) (simp_all add: inf_of_sign_def)

lemma fle_NaN_right [simp]: "\<not> fle a NaN"
  by (cases a) simp_all

lemma processed_rows:
  assumes "g \<in> set (process_gauge_data df_gauge df_hist)"
  shows "\<exists>r pct p. g = process r pct p"
  using assms by (auto simp: process_gauge_data_def Let_def split: if_splits)

lemma process_fields [simp]:
  "flow_cfs (process r pct p) = flow_cfs r"
  "p90_flow_cfs' (process r pct p) = p"
  "ratio' (process r pct p) = fdiv (flow_cfs r) p"
  "day_of_year' (process r pct p) = map_option dayofyear (timestamp_utc r)"
  by (simp_all add: process_def)

text \<open>
  C2, as the code has it. In the frame written by compare\_p90\_roc.py (flows being
  finite numbers or null), the ratio of every record is null exactly when its threshold
  is null or zero, and the flag is true exactly when the ratio is at least 1, so false
  when the ratio is null. The frame of process\_gauge\_data.py has no flag; its ratio is
  the quotient of flow and threshold: null when the threshold or the flow is null, and
  the quotient of the two numbers when both are numbers and the threshold is not zero.
\<close>

theorem ratio_and_high_flow:
  "(compare_p90_roc_main df hist_file = Inr (Some out)
      \<and> (\<forall>r \<in> set df. flow_cfs r \<noteq> PosInf \<and> flow_cfs r \<noteq> NegInf)
    \<longrightarrow> (\<forall>c \<in> set out.
           (ratio c = NaN \<longleftrightarrow> p90_flow_cfs c = NaN \<or> p90_flow_cfs c = Fin 0)
           \<and> (high_flow c \<longleftrightarrow> fle (Fin 1) (ratio c))
           \<and> (ratio c = NaN \<longrightarrow> \<not> high_flow c)))
   \<and> (\<forall>g \<in> set (process_gauge_data df_gauge df_hist).
         (p90_flow_cfs' g = NaN \<or> flow_cfs g = NaN \<longrightarrow> ratio' g = NaN)
         \<and> (\<forall>f p. flow_cfs g = Fin f \<and> p90_flow_cfs' g = Fin p \<and> p \<noteq> 0
                \<longrightarrow> ratio' g = Fin (f / p)))"
proof (intro conjI impI ballI)
  fix c
  assume a: "compare_p90_roc_main df hist_file = Inr (Some out)
      \<and> (\<forall>r \<in> set df. flow_cfs r \<noteq> PosInf \<and> flow_cfs r \<noteq> NegInf)"
    and c: "c \<in> set out"
  from a c main_rows [of df hist_file out c] obtain r p where
    r: "c = classify r p" "flow_cfs r \<noteq> NaN" "flow_cfs r \<in> flow_cfs ` set df"
    by blast
  from r(3) a have fin: "flow_cfs r \<noteq> PosInf" "flow_cfs r \<noteq> NegInf"
    by auto
  show "ratio c = NaN \<longleftrightarrow> p90_flow_cfs c = NaN \<or> p90_flow_cfs c = Fin 0"
    using fdiv_not_NaN [OF r(2) fin] by (auto simp: r(1))
  show hf: "high_flow c \<longleftrightarrow> fle (Fin 1) (ratio c)"
    unfolding r(1) by (rule classify_fields)
  assume "ratio c = NaN"
  with hf show "\<not> high_flow c"
    by simp
next
  fix g
  assume "g \<in> set (process_gauge_data df_gauge df_hist)"
  then obtain r pct p where g: "g = process r pct p"
    using processed_rows by blast
  show "ratio' g = NaN" if "p90_flow_cfs' g = NaN \<or> flow_cfs g = NaN"
    using that unfolding g by auto
  show "\<forall>f p. flow_cfs g = Fin f \<and> p90_flow_cfs' g = Fin p \<and> p \<noteq> 0 \<longrightarrow> ratio' g = Fin (f / p)"
    unfolding g by auto
qed

theorem ratio_and_high_flow_witness:
  "(\<exists>out. compare_p90_roc_main mixed_frame (Some sample_hist) = Inr (Some out)
       \<and> list_all (\<lambda>r. flow_cfs r \<noteq> PosInf \<and> flow_cfs r \<noteq> NegInf) mixed_frame
       \<and> out \<noteq> []
       \<and> list_all (\<lambda>c. (ratio c = NaN \<longleftrightarrow> p90_flow_cfs c = NaN \<or> p90_flow_cfs c = Fin 0)
                      \<and> (high_flow c \<longleftrightarrow> fle (Fin 1) (ratio c))
                      \<and> (ratio c = NaN \<longrightarrow> \<not> high_flow c)) out)
   \<and> process_gauge_data silent_gauge sample_hist \<noteq> []
   \<and> list_all (\<lambda>g. (p90_flow_cfs' g = NaN \<or> flow_cfs g = NaN \<longrightarrow> ratio' g = NaN)
                  \<and> (\<forall>f p. flow_cfs g = Fin f \<and> p90_flow_cfs' g = Fin p \<and> p \<noteq> 0
                        \<longrightarrow> ratio' g = Fin (f / p)))
        (process_gauge_data silent_gauge sample_hist)"
proof -
  have fin: "\<forall>r \<in> set mixed_frame. flow_cfs r \<noteq> PosInf \<and> flow_cfs r \<noteq> NegInf"
    by (simp add: mixed_frame_def)
  have ne: "process_gauge_data silent_gauge sample_hist \<noteq> []"
    by code_simp
  from ratio_and_high_flow [of mixed_frame "Some sample_hist" _ silent_gauge sample_hist]
    mixed_frame_out fin ne
  show ?thesis
    unfolding list_all_iff by (intro conjI exI [where x = "[_]"]) blast+
qed

text \<open>
  C2 does not hold as stated for process\_gauge\_data.py: the gauge whose only reading
  has no flow is written with a null ratio, although its threshold is 5.
\<close>

theorem ratio_and_high_flow_counterexample:
  "\<not> (\<forall>g \<in> set (process_gauge_data silent_gauge sample_hist).
        ratio' g = NaN \<longleftrightarrow> p90_flow_cfs' g = NaN \<or> p90_flow_cfs' g = Fin 0)"
proof -
  have "map (\<lambda>g. (ratio' g, p90_flow_cfs' g)) (process_gauge_data silent_gauge sample_hist)
        = [(NaN, Fin 5)]"
    by code_simp
  then have "\<exists>g \<in> set (process_gauge_data silent_gauge sample_hist).
               ratio' g = NaN \<and> p90_flow_cfs' g = Fin 5"
    by (cases "process_gauge_data silent_gauge sample_hist") auto
  then obtain g where g: "g \<in> set (process_gauge_data silent_gauge sample_hist)"
    "ratio' g = NaN" "p90_flow_cfs' g = Fin 5" by blast
  have "\<not> (ratio' g = NaN \<longleftrightarrow> p90_flow_cfs' g = NaN \<or> p90_flow_cfs' g = Fin 0)"
    by (simp add: g)
  with g(1) show ?thesis by blast
qed

subsection \<open>The baseline\<close>

lemma length_bfill [simp]: "length (bfill xs) = length xs"
  by (induction xs rule: bfill.induct) (auto split: list.splits)

lemma length_ffill_from [simp]: "length (ffill_from l xs) = length xs"
  by (induction l xs rule: ffill_from.induct) simp_all

lemma length_interpolate [simp]: "length (interpolate xs) = length xs"
  by (simp add: interpolate_def)

lemma bfill_hd:
  "\<exists>y \<in> set (bfill zs). y \<noteq> None \<Longrightarrow> hd (bfill zs) \<noteq> None"
  by (induction zs rule: bfill.induct) (auto split: list.splits)

lemma ffill_from_valid:
  "l \<noteq> None \<Longrightarrow> None \<notin> set (ffill_from l xs)"
  by (induction l xs rule: ffill_from.induct) auto

lemma ffill_from_hd:
  "ys \<noteq> [] \<Longrightarrow> hd ys \<noteq> None \<Longrightarrow> None \<notin> set (ffill_from l ys)"
  by (cases ys) (auto simp: ffill_from_valid)

lemma ffill_from_all_null:
  "\<forall>y \<in> set ys. y = None \<Longrightarrow> \<forall>y \<in> set (ffill_from None ys). y = None"
  by (induction ys) auto

text \<open>After the two fills a column is either all null or without a null.\<close>

lemma ffill_bfill_dichotomy:
  "(\<forall>y \<in> set (ffill (bfill zs)). y = None) \<or> None \<notin> set (ffill (bfill zs))"
proof (cases "\<exists>y \<in> set (bfill zs). y \<noteq> None")
  case True
  then have "hd (bfill zs) \<noteq> None" by (rule bfill_hd)
  moreover from True have "bfill zs \<noteq> []" by auto
  ultimately show ?thesis
    unfolding ffill_def using ffill_from_hd by blast
next
  case False
  then show ?thesis
    unfolding ffill_def using ffill_from_all_null by blast
qed

lemma length_days [simp]: "length [1..365] = 365"
  by simp

lemma site_curve_dense:
  "length (site_curve site_df) = 365 \<and> None \<notin> set (site_curve site_df)"
proof -
  define merged where "merged = map (merged_value site_df) [1..365]"
  define filled where "filled = ffill (bfill (interpolate merged))"
  have len: "length filled = 365"
    by (simp add: filled_def ffill_def merged_def)
  have curve: "site_curve site_df
        = (if list_all (\<lambda>p. p = None) filled then map (\<lambda>p. Some 0) filled else filled)"
    by (simp add: site_curve_def fill_column_def Let_def merged_def filled_def)
  show ?thesis
  proof (cases "list_all (\<lambda>p. p = None) filled")
    case True
    then show ?thesis by (auto simp: curve len)
  next
    case False
    then have "\<not> (\<forall>y \<in> set filled. y = None)" by (simp add: list_all_iff)
    with ffill_bfill_dichotomy [of "interpolate merged"] have "None \<notin> set filled"
      unfolding filled_def by blast
    with False show ?thesis by (simp add: curve len)
  qed
qed

lemma filter_concat_blocks:
  assumes "distinct ks" and "\<forall>k \<in> set ks. \<forall>h \<in> set (f k). key h = k" and "k \<in> set ks"
  shows "filter (\<lambda>h. key h = k) (concat (map f ks)) = f k"
  using assms
proof (induction ks)
  case Nil
  then show ?case by simp
next
  case (Cons a ks)
  have own: "filter (\<lambda>h. key h = a) (f a) = f a"
    using Cons.prems(2) by (auto simp: filter_id_conv)
  show ?case
  proof (cases "k = a")
    case True
    then have "a \<notin> set ks" using Cons.prems(1) by simp
    then have "filter (\<lambda>h. key h = a) (concat (map f ks)) = []"
      using Cons.prems(2) by (auto simp: filter_empty_conv)
    with True own show ?thesis by simp
  next
    case False
    then have "filter (\<lambda>h. key h = k) (f a) = []"
      using Cons.prems(2) by (auto simp: filter_empty_conv)
    moreover have "filter (\<lambda>h. key h = k) (concat (map f ks)) = f k"
      using Cons False by auto
    ultimately show ?thesis by simp
  qed
qed

lemma site_block_rows:
  assumes "h \<in> set (site_block grouped k)"
  shows "(hist_site_no h, hist_site_name h) = k \<and> hist_p90_flow_cfs h \<noteq> NaN"
proof -
  let ?sd = "site_frame grouped k"
  from assms obtain d p where dp: "(d, p) \<in> set (zip [1..365] (site_curve ?sd))"
    and h: "h = \<lparr>hist_site_no = fst k, hist_site_name = snd k,
                  hist_day_of_year = d, hist_p90_flow_cfs = flt_of p\<rparr>"
    by (auto simp: site_block_def Let_def)
  from dp have "p \<in> set (site_curve ?sd)" by (rule set_zip_rightD)
  with site_curve_dense [of ?sd] have "p \<noteq> None" by metis
  then have "flt_of p \<noteq> NaN" by (cases p) simp_all
  with h show ?thesis by simp
qed

lemma site_block_days:
  "map hist_day_of_year (site_block grouped k) = [1..365]"
proof -
  let ?sd = "site_frame grouped k"
  have "map hist_day_of_year (site_block grouped k) = map fst (zip [1..365] (site_curve ?sd))"
    by (simp add: site_block_def Let_def case_prod_unfold comp_def)
  also have "\<dots> = [1..365]"
    using site_curve_dense [of ?sd] by (simp del: upto.simps)
  finally show ?thesis .
qed

lemma baseline_rows_of_key:
  assumes "k \<in> set (site_keys (grouped_p90 (valid_rows df)))"
  shows "filter (\<lambda>h. (hist_site_no h, hist_site_name h) = k) (compute_p90_by_day df)
         = site_block (grouped_p90 (valid_rows df)) k"
  unfolding compute_p90_by_day_def Let_def
proof (rule filter_concat_blocks)
  show "distinct (site_keys (grouped_p90 (valid_rows df)))"
    by (simp add: site_keys_def)
  show "\<forall>k \<in> set (site_keys (grouped_p90 (valid_rows df))).
          \<forall>h \<in> set (site_block (grouped_p90 (valid_rows df)) k).
            (hist_site_no h, hist_site_name h) = k"
    using site_block_rows by blast
  show "k \<in> set (site_keys (grouped_p90 (valid_rows df)))" by (rule assms)
qed

lemma baseline_row_key:
  assumes "h \<in> set (compute_p90_by_day df)"
  shows "(hist_site_no h, hist_site_name h) \<in> set (site_keys (grouped_p90 (valid_rows df)))"
  using assms site_block_rows
  by (fastforce simp: compute_p90_by_day_def Let_def)

text \<open>The sites and names of the groups are those of the rows that have a day of year.\<close>

lemma set_map_filter_conv:
  "set (List.map_filter f xs) = {y. \<exists>x \<in> set xs. f x = Some y}"
  by (induction xs) (auto split: option.splits)

lemma day_keys_iff:
  "(s, n, d) \<in> set (day_keys df)
     \<longleftrightarrow> (\<exists>r \<in> set df. dv_site_no r = s \<and> dv_site_name r = n \<and> dv_day_of_year r = Some d)"
  by (auto simp: day_keys_def set_map_filter_conv)

lemma site_keys_iff:
  "(s, n) \<in> set (site_keys (grouped_p90 df))
     \<longleftrightarrow> (\<exists>r \<in> set df. dv_site_no r = s \<and> dv_site_name r = n \<and> dv_day_of_year r \<noteq> None)"
proof -
  have "(s, n) \<in> set (site_keys (grouped_p90 df)) \<longleftrightarrow> (\<exists>d. (s, n, d) \<in> set (day_keys df))"
    by (force simp: site_keys_def grouped_p90_def)
  then show ?thesis
    by (auto simp: day_keys_iff)
qed

lemma site_count_pos_iff:
  "0 < site_count s df \<longleftrightarrow> (\<exists>r \<in> set df. dv_site_no r = s \<and> dv_flow_cfs r \<noteq> None)"
  by (auto simp: site_count_def filter_empty_conv)

lemma baseline_sites_iff:
  "(s, n) \<in> (\<lambda>h. (hist_site_no h, hist_site_name h)) ` set (compute_p90_by_day df)
     \<longleftrightarrow> (\<exists>r \<in> set df. dv_site_no r = s \<and> dv_flow_cfs r \<noteq> None)
          \<and> (\<exists>r \<in> set df. dv_site_no r = s \<and> dv_site_name r = n \<and> dv_day_of_year r \<noteq> None)"
proof -
  let ?g = "grouped_p90 (valid_rows df)"
  have "(s, n) \<in> (\<lambda>h. (hist_site_no h, hist_site_name h)) ` set (compute_p90_by_day df)
        \<longleftrightarrow> (s, n) \<in> set (site_keys ?g)"
  proof
    assume "(s, n) \<in> (\<lambda>h. (hist_site_no h, hist_site_name h)) ` set (compute_p90_by_day df)"
    then show "(s, n) \<in> set (site_keys ?g)"
      using baseline_row_key by force
  next
    assume k: "(s, n) \<in> set (site_keys ?g)"
    have "length (map hist_day_of_year (site_block ?g (s, n))) = length [1..365]"
      by (simp only: site_block_days)
    then have "length (site_block ?g (s, n)) = 365"
      by (simp only: length_map length_days)
    then obtain h where "h \<in> set (site_block ?g (s, n))"
      by (cases "site_block ?g (s, n)") auto
    moreover have "set (site_block ?g (s, n)) \<subseteq> set (compute_p90_by_day df)"
      using baseline_rows_of_key [OF k] by (metis filter_is_subset)
    ultimately have "h \<in> set (compute_p90_by_day df)" "(hist_site_no h, hist_site_name h) = (s, n)"
      using site_block_rows by blast+
    then show "(s, n) \<in> (\<lambda>h. (hist_site_no h, hist_site_name h)) ` set (compute_p90_by_day df)"
      by force
  qed
  also have "\<dots> \<longleftrightarrow> (\<exists>r \<in> set (valid_rows df). dv_site_no r = s \<and> dv_site_name r = n
                          \<and> dv_day_of_year r \<noteq> None)"
    by (rule site_keys_iff)
  also have "\<dots> \<longleftrightarrow> (\<exists>r \<in> set df. dv_site_no r = s \<and> dv_flow_cfs r \<noteq> None)
          \<and> (\<exists>r \<in> set df. dv_site_no r = s \<and> dv_site_name r = n \<and> dv_day_of_year r \<noteq> None)"
    (is "?L \<longleftrightarrow> ?A \<and> ?B")
  proof
    assume ?L
    then obtain r where r: "r \<in> set df" "0 < site_count (dv_site_no r) df"
      "dv_site_no r = s" "dv_site_name r = n" "dv_day_of_year r \<noteq> None"
      by (auto simp: valid_rows_def)
    from r(2,3) have ?A by (simp add: site_count_pos_iff)
    moreover from r(1,3,4,5) have ?B by blast
    ultimately show "?A \<and> ?B" ..
  next
    assume ab: "?A \<and> ?B"
    then obtain r where r: "r \<in> set df" "dv_site_no r = s" "dv_site_name r = n"
      "dv_day_of_year r \<noteq> None" by blast
    from ab have "0 < site_count s df" by (simp add: site_count_pos_iff)
    with r(1,2) have "r \<in> set (valid_rows df)" by (simp add: valid_rows_def)
    with r(2,3,4) show ?L by blast
  qed
  finally show ?thesis .
qed


subsection \<open>The values of the fills\<close>

lemma valid_points_none:
  "\<forall>j \<in> set js. xs ! j = None \<Longrightarrow> valid_points xs js = []"
  by (induction js) (simp_all add: valid_points_def)

lemma valid_points_first:
  assumes "\<forall>j \<in> set pre. xs ! j = None" and "xs ! a = Some va"
  shows "valid_points xs (pre @ a # post) = (a, va) # valid_points xs post"
  using assms by (induction pre) (simp_all add: valid_points_def)

lemma upt_split:
  assumes "a < i"
  shows "[0..<i] = [0..<a] @ a # [Suc a..<i]"
proof -
  have "[0..<i] = [0..<a] @ [a..<i]"
    using assms by (metis le_add_diff_inverse less_imp_le_nat upt_add_eq_append zero_le)
  also have "[a..<i] = a # [Suc a..<i]"
    using assms by (rule upt_conv_Cons)
  finally show ?thesis .
qed

lemma rev_upt_split:
  assumes "a < i"
  shows "rev [0..<i] = rev [Suc a..<i] @ a # rev [0..<a]"
  by (simp add: upt_split [OF assms])

lemma upt_split_from:
  assumes "i < b" and "b < n"
  shows "[Suc i..<n] = [Suc i..<b] @ b # [Suc b..<n]"
proof -
  have "[Suc i..<n] = [Suc i..<b] @ [b..<n]"
    using assms by (metis Suc_leI le_add_diff_inverse less_imp_le_nat upt_add_eq_append)
  also have "[b..<n] = b # [Suc b..<n]"
    using assms(2) by (rule upt_conv_Cons)
  finally show ?thesis .
qed

lemma prev_valid:
  assumes "a < i" and "xs ! a = Some va" and "\<forall>j. a < j \<and> j < i \<longrightarrow> xs ! j = None"
  shows "valid_points xs (rev [0..<i]) = (a, va) # valid_points xs (rev [0..<a])"
  unfolding rev_upt_split [OF assms(1)]
  by (rule valid_points_first) (use assms in auto)

lemma next_valid:
  assumes "i < b" and "b < n" and "xs ! b = Some vb" and "\<forall>j. i < j \<and> j < b \<longrightarrow> xs ! j = None"
  shows "valid_points xs [Suc i..<n] = (b, vb) # valid_points xs [Suc b..<n]"
  unfolding upt_split_from [OF assms(1,2)]
  by (rule valid_points_first) (use assms in auto)

lemma interpolate_nth:
  assumes "i < length xs"
  shows "interpolate xs ! i =
     (case xs ! i of
        Some v \<Rightarrow> Some v
      | None \<Rightarrow>
          (case valid_points xs (rev [0..<i]) of
             [] \<Rightarrow> None
           | (a, va) # _ \<Rightarrow>
               (case valid_points xs [Suc i..<length xs] of
                  [] \<Rightarrow> Some va
                | (b, vb) # _ \<Rightarrow> Some (va + (vb - va) * real (i - a) / real (b - a)))))"
  unfolding interpolate_def
  by (subst nth_map_upt) (use assms in \<open>simp_all only: add_0 diff_zero length_upt\<close>)

lemma interpolate_known:
  "i < length xs \<Longrightarrow> xs ! i = Some v \<Longrightarrow> interpolate xs ! i = Some v"
  by (simp add: interpolate_nth)

lemma interpolate_between:
  assumes "xs ! i = None"
    and "a < i" "xs ! a = Some va" "\<forall>j. a < j \<and> j < i \<longrightarrow> xs ! j = None"
    and "i < b" "b < length xs" "xs ! b = Some vb" "\<forall>j. i < j \<and> j < b \<longrightarrow> xs ! j = None"
  shows "interpolate xs ! i = Some (va + (vb - va) * real (i - a) / real (b - a))"
proof -
  have "i < length xs" using assms(5,6) by simp
  then show ?thesis
    by (simp add: interpolate_nth assms(1) prev_valid [OF assms(2,3,4)]
          next_valid [OF assms(5,6,7,8)])
qed

lemma interpolate_after:
  assumes "i < length xs" "xs ! i = None"
    and "a < i" "xs ! a = Some va" "\<forall>j. a < j \<and> j < i \<longrightarrow> xs ! j = None"
    and "\<forall>j. i < j \<and> j < length xs \<longrightarrow> xs ! j = None"
  shows "interpolate xs ! i = Some va"
proof -
  have "valid_points xs [Suc i..<length xs] = []"
    by (rule valid_points_none) (use assms(6) in auto)
  then show ?thesis
    using assms(1) by (simp add: interpolate_nth assms(2) prev_valid [OF assms(3,4,5)])
qed

lemma interpolate_before:
  assumes "i < length xs" "xs ! i = None" "\<forall>j. j < i \<longrightarrow> xs ! j = None"
  shows "interpolate xs ! i = None"
proof -
  have "valid_points xs (rev [0..<i]) = []"
    by (rule valid_points_none) (use assms(3) in auto)
  then show ?thesis
    using assms(1) by (simp add: interpolate_nth assms(2))
qed

lemma bfill_first:
  assumes "b < length ys" "ys ! b = Some vb" "i \<le> b" "\<forall>j. i \<le> j \<and> j < b \<longrightarrow> ys ! j = None"
  shows "bfill ys ! i = Some vb"
  using assms
proof (induction ys arbitrary: i b rule: bfill.induct)
  case 1
  then show ?case by simp
next
  case (2 v xs)
  show ?case
  proof (cases i)
    case 0
    have "b = 0"
    proof (rule ccontr)
      assume "b \<noteq> 0"
      with 2(5) 0 have "(Some v # xs) ! 0 = None" by blast
      then show False by simp
    qed
    with 2(3) 0 show ?thesis by simp
  next
    case (Suc i')
    with 2(4) obtain b' where b': "b = Suc b'" by (cases b) auto
    have "bfill xs ! i' = Some vb"
    proof (rule 2(1))
      show "b' < length xs" using 2(2) b' by simp
      show "xs ! b' = Some vb" using 2(3) b' by simp
      show "i' \<le> b'" using 2(4) Suc b' by simp
      show "\<forall>j. i' \<le> j \<and> j < b' \<longrightarrow> xs ! j = None"
      proof (intro allI impI)
        fix j assume "i' \<le> j \<and> j < b'"
        then have "i \<le> Suc j \<and> Suc j < b" using Suc b' by simp
        with 2(5) have "(Some v # xs) ! Suc j = None" by blast
        then show "xs ! j = None" by simp
      qed
    qed
    with Suc show ?thesis by simp
  qed
next
  case (3 xs)
  have b0: "b \<noteq> 0" using 3(3) by (cases b) auto
  then obtain b' where b': "b = Suc b'" by (cases b) auto
  have tail: "bfill xs ! i' = Some vb"
    if "i' \<le> b'" "\<forall>j. i' \<le> j \<and> j < b' \<longrightarrow> xs ! j = None" for i'
  proof (rule 3(1))
    show "b' < length xs" using 3(2) b' by simp
    show "xs ! b' = Some vb" using 3(3) b' by simp
    show "i' \<le> b'" by (rule that(1))
    show "\<forall>j. i' \<le> j \<and> j < b' \<longrightarrow> xs ! j = None" by (rule that(2))
  qed
  have len: "length (bfill xs) = length xs" by simp
  then have ne: "bfill xs \<noteq> []" using 3(2) b' by (cases "bfill xs") auto
  then obtain z zs where z: "bfill xs = z # zs" by (cases "bfill xs") auto
  show ?case
  proof (cases i)
    case 0
    have "\<forall>j. 0 \<le> j \<and> j < b' \<longrightarrow> xs ! j = None"
    proof (intro allI impI)
      fix j assume "0 \<le> j \<and> j < b'"
      then have "i \<le> Suc j \<and> Suc j < b" using 0 b' by simp
      with 3(5) have "(None # xs) ! Suc j = None" by blast
      then show "xs ! j = None" by simp
    qed
    then have "bfill xs ! 0 = Some vb" by (intro tail) simp_all
    with z 0 show ?thesis by simp
  next
    case (Suc i')
    have "\<forall>j. i' \<le> j \<and> j < b' \<longrightarrow> xs ! j = None"
    proof (intro allI impI)
      fix j assume "i' \<le> j \<and> j < b'"
      then have "i \<le> Suc j \<and> Suc j < b" using Suc b' by simp
      with 3(5) have "(None # xs) ! Suc j = None" by blast
      then show "xs ! j = None" by simp
    qed
    moreover have "i' \<le> b'" using 3(4) Suc b' by simp
    ultimately have "bfill xs ! i' = Some vb" by (intro tail)
    with z Suc show ?thesis by simp
  qed
qed

lemma bfill_all_null:
  "\<forall>y \<in> set ys. y = None \<Longrightarrow> \<forall>y \<in> set (bfill ys). y = None"
  by (induction ys rule: bfill.induct) (auto split: list.splits)

lemma ffill_from_keep:
  "i < length ys \<Longrightarrow> ys ! i = Some v \<Longrightarrow> ffill_from l ys ! i = Some v"
proof (induction l ys arbitrary: i rule: ffill_from.induct)
  case (1 l)
  then show ?case by simp
next
  case (2 l w xs)
  then show ?case by (cases i) simp_all
next
  case (3 l xs)
  then show ?case by (cases i) simp_all
qed

lemma filled_keep:
  assumes "i < length xs" and "interpolate xs ! i = Some w"
  shows "ffill (bfill (interpolate xs)) ! i = Some w"
proof -
  have "bfill (interpolate xs) ! i = Some w"
    by (rule bfill_first [where b = i]) (use assms in auto)
  then show ?thesis
    unfolding ffill_def using assms(1) by (intro ffill_from_keep) simp_all
qed

lemma fill_column_filled:
  assumes "i < length xs" and "ffill (bfill (interpolate xs)) ! i = Some w"
  shows "fill_column xs ! i = Some w"
proof -
  let ?f = "ffill (bfill (interpolate xs))"
  have "i < length ?f" using assms(1) by (simp add: ffill_def)
  then have "?f ! i \<in> set ?f" by (rule nth_mem)
  with assms(2) have "\<not> list_all (\<lambda>p. p = None) ?f"
    by (auto simp: list_all_iff)
  then show ?thesis
    using assms(2) by (simp add: fill_column_def Let_def)
qed

lemma fill_column_known:
  assumes "i < length xs" "xs ! i = Some v"
  shows "fill_column xs ! i = Some v"
  using assms by (intro fill_column_filled filled_keep interpolate_known)

lemma fill_column_between:
  assumes "xs ! i = None"
    and "a < i" "xs ! a = Some va" "\<forall>j. a < j \<and> j < i \<longrightarrow> xs ! j = None"
    and "i < b" "b < length xs" "xs ! b = Some vb" "\<forall>j. i < j \<and> j < b \<longrightarrow> xs ! j = None"
  shows "fill_column xs ! i = Some (va + (vb - va) * real (i - a) / real (b - a))"
proof -
  have i: "i < length xs" using assms(5,6) by simp
  from interpolate_between [OF assms] i show ?thesis
    by (intro fill_column_filled filled_keep)
qed

lemma fill_column_after:
  assumes "i < length xs" "xs ! i = None"
    and "a < i" "xs ! a = Some va" "\<forall>j. a < j \<and> j < i \<longrightarrow> xs ! j = None"
    and "\<forall>j. i < j \<and> j < length xs \<longrightarrow> xs ! j = None"
  shows "fill_column xs ! i = Some va"
  using interpolate_after [OF assms] assms(1) by (intro fill_column_filled filled_keep)

lemma fill_column_before:
  assumes "i < b" "b < length xs" "xs ! b = Some vb" "\<forall>j. j < b \<longrightarrow> xs ! j = None"
  shows "fill_column xs ! i = Some vb"
proof -
  let ?zs = "interpolate xs"
  have i: "i < length xs" using assms(1,2) by simp
  have zb: "?zs ! b = Some vb"
    using assms(2,3) by (rule interpolate_known)
  have zn: "\<forall>j. i \<le> j \<and> j < b \<longrightarrow> ?zs ! j = None"
  proof (intro allI impI)
    fix j assume j: "i \<le> j \<and> j < b"
    show "?zs ! j = None"
    proof (rule interpolate_before)
      show "j < length xs" using j assms(2) by simp
      show "xs ! j = None" using j assms(4) by simp
      show "\<forall>j'. j' < j \<longrightarrow> xs ! j' = None" using j assms(4) by simp
    qed
  qed
  have "bfill ?zs ! i = Some vb"
    by (rule bfill_first [where b = b]) (use assms(1,2) zb zn in simp_all)
  then have "ffill (bfill ?zs) ! i = Some vb"
    unfolding ffill_def using i by (intro ffill_from_keep) simp_all
  with i show ?thesis by (rule fill_column_filled)
qed

lemma fill_column_none:
  assumes "\<forall>j. j < length xs \<longrightarrow> xs ! j = None" and "i < length xs"
  shows "fill_column xs ! i = Some 0"
proof -
  let ?zs = "interpolate xs"
  have "\<forall>y \<in> set ?zs. y = None"
  proof
    fix y assume "y \<in> set ?zs"
    then obtain j where j: "j < length xs" "y = ?zs ! j"
      by (auto simp: in_set_conv_nth)
    have "?zs ! j = None"
      by (rule interpolate_before) (use j assms(1) in simp_all)
    with j show "y = None" by simp
  qed
  then have "\<forall>y \<in> set (bfill ?zs). y = None" by (rule bfill_all_null)
  then have "\<forall>y \<in> set (ffill (bfill ?zs)). y = None"
    unfolding ffill_def by (rule ffill_from_all_null)
  then have "list_all (\<lambda>p. p = None) (ffill (bfill ?zs))"
    by (simp add: list_all_iff)
  then show ?thesis
    using assms(2) by (simp add: fill_column_def Let_def ffill_def)
qed

text \<open>The same for a column over the days 1 to 365, with days for positions.\<close>

lemma days_nth: "i < 365 \<Longrightarrow> [1..365] ! i = 1 + int i"
  by (simp add: nth_upto del: upto.simps)

lemma day_column_nth:
  "1 \<le> d \<Longrightarrow> d \<le> 365 \<Longrightarrow> map f [1..365] ! nat (d - 1) = f d"
  by (simp add: days_nth del: upto.simps)

lemma day_column_length: "length (map f [1..365]) = 365"
  by simp

lemma day_column_known:
  assumes "1 \<le> d" "d \<le> 365" "f d = Some v"
  shows "fill_column (map f [1..365]) ! nat (d - 1) = Some v"
proof (rule fill_column_known)
  show "nat (d - 1) < length (map f [1..365])"
    using assms(1,2) by (simp only: day_column_length; simp)
  show "map f [1..365] ! nat (d - 1) = Some v"
    using assms by (simp only: day_column_nth)
qed

lemma day_column_between:
  assumes "f d = None"
    and "1 \<le> a" "a < d" "f a = Some va" "\<forall>j. a < j \<and> j < d \<longrightarrow> f j = None"
    and "d < b" "b \<le> 365" "f b = Some vb" "\<forall>j. d < j \<and> j < b \<longrightarrow> f j = None"
  shows "fill_column (map f [1..365]) ! nat (d - 1)
         = Some (va + (vb - va) * real_of_int (d - a) / real_of_int (b - a))"
proof -
  let ?xs = "map f [1..365]"
  have nth: "?xs ! nat (j - 1) = f j" if "1 \<le> j" "j \<le> 365" for j
    using that by (rule day_column_nth)
  have pos: "?xs ! j = f (1 + int j)" if "j < 365" for j
    using that by (simp add: days_nth del: upto.simps)
  have "fill_column ?xs ! nat (d - 1)
        = Some (va + (vb - va) * real (nat (d - 1) - nat (a - 1)) / real (nat (b - 1) - nat (a - 1)))"
  proof (rule fill_column_between)
    show "?xs ! nat (d - 1) = None" using assms by (simp only: nth; simp)
    show "nat (a - 1) < nat (d - 1)" using assms(2,3) by simp
    show "?xs ! nat (a - 1) = Some va" using assms by (simp only: nth; simp)
    show "\<forall>j. nat (a - 1) < j \<and> j < nat (d - 1) \<longrightarrow> ?xs ! j = None"
    proof (intro allI impI)
      fix j assume j: "nat (a - 1) < j \<and> j < nat (d - 1)"
      then have "j < 365" using assms(3,6,7) by linarith
      then have "?xs ! j = f (1 + int j)" by (rule pos)
      moreover have "a < 1 + int j \<and> 1 + int j < d" using j by auto
      ultimately show "?xs ! j = None" using assms(5) by simp
    qed
    show "nat (d - 1) < nat (b - 1)" using assms(2,3,6) by simp
    show "nat (b - 1) < length ?xs" using assms(2,3,6,7) by (simp only: day_column_length; simp)
    show "?xs ! nat (b - 1) = Some vb" using assms by (simp only: nth; simp)
    show "\<forall>j. nat (d - 1) < j \<and> j < nat (b - 1) \<longrightarrow> ?xs ! j = None"
    proof (intro allI impI)
      fix j assume j: "nat (d - 1) < j \<and> j < nat (b - 1)"
      then have "j < 365" using assms(7) by linarith
      then have "?xs ! j = f (1 + int j)" by (rule pos)
      moreover have "d < 1 + int j \<and> 1 + int j < b" using j assms(2,3) by auto
      ultimately show "?xs ! j = None" using assms(9) by simp
    qed
  qed
  moreover have "real (nat (d - 1) - nat (a - 1)) = real_of_int (d - a)"
    using assms(2,3) by simp
  moreover have "real (nat (b - 1) - nat (a - 1)) = real_of_int (b - a)"
    using assms(2,3,6) by simp
  ultimately show ?thesis by (simp only:)
qed

lemma day_column_after:
  assumes "d \<le> 365"
    and "1 \<le> a" "a < d" "f a = Some va" "\<forall>j. a < j \<and> j \<le> 365 \<longrightarrow> f j = None"
  shows "fill_column (map f [1..365]) ! nat (d - 1) = Some va"
proof -
  let ?xs = "map f [1..365]"
  have nth: "?xs ! nat (j - 1) = f j" if "1 \<le> j" "j \<le> 365" for j
    using that by (rule day_column_nth)
  have pos: "?xs ! j = f (1 + int j)" if "j < 365" for j
    using that by (simp add: days_nth del: upto.simps)
  have none: "?xs ! j = None" if "nat (a - 1) < j" "j < 365" for j
  proof -
    have "a < 1 + int j \<and> 1 + int j \<le> 365" using that by auto
    with assms(5) pos [OF that(2)] show ?thesis by simp
  qed
  show ?thesis
  proof (rule fill_column_after)
    show "nat (d - 1) < length ?xs" using assms(1,2,3) by (simp only: day_column_length; simp)
    show "?xs ! nat (d - 1) = None" using assms by (simp only: nth; simp)
    show "nat (a - 1) < nat (d - 1)" using assms(2,3) by simp
    show "?xs ! nat (a - 1) = Some va" using assms by (simp only: nth; simp)
    show "\<forall>j. nat (a - 1) < j \<and> j < nat (d - 1) \<longrightarrow> ?xs ! j = None"
      using none assms(1) by auto
    show "\<forall>j. nat (d - 1) < j \<and> j < length ?xs \<longrightarrow> ?xs ! j = None"
      using none assms(2,3) by (simp only: day_column_length) auto
  qed
qed

lemma day_column_before:
  assumes "1 \<le> d" and "d < b" "b \<le> 365" "f b = Some vb" "\<forall>j. 1 \<le> j \<and> j < b \<longrightarrow> f j = None"
  shows "fill_column (map f [1..365]) ! nat (d - 1) = Some vb"
proof -
  let ?xs = "map f [1..365]"
  have pos: "?xs ! j = f (1 + int j)" if "j < 365" for j
    using that by (simp add: days_nth del: upto.simps)
  show ?thesis
  proof (rule fill_column_before)
    show "nat (d - 1) < nat (b - 1)" using assms(1,2) by simp
    show "nat (b - 1) < length ?xs" using assms(1,2,3) by (simp only: day_column_length; simp)
    show "?xs ! nat (b - 1) = Some vb" using assms by (simp only: day_column_nth; simp)
    show "\<forall>j. j < nat (b - 1) \<longrightarrow> ?xs ! j = None"
    proof (intro allI impI)
      fix j assume j: "j < nat (b - 1)"
      then have "j < 365" using assms(3) by linarith
      then have "?xs ! j = f (1 + int j)" by (rule pos)
      moreover have "1 \<le> 1 + int j \<and> 1 + int j < b" using j by auto
      ultimately show "?xs ! j = None" using assms(5) by simp
    qed
  qed
qed

lemma day_column_none:
  assumes "1 \<le> d" "d \<le> 365" "\<forall>j. 1 \<le> j \<and> j \<le> 365 \<longrightarrow> f j = None"
  shows "fill_column (map f [1..365]) ! nat (d - 1) = Some 0"
proof (rule fill_column_none)
  show "nat (d - 1) < length (map f [1..365])"
    using assms(1,2) by (simp only: day_column_length; simp)
  show "\<forall>j. j < length (map f [1..365]) \<longrightarrow> map f [1..365] ! j = None"
  proof (intro allI impI)
    fix j assume "j < length (map f [1..365])"
    then have j: "j < 365" by (simp only: day_column_length)
    then have "map f [1..365] ! j = f (1 + int j)" by (simp add: days_nth del: upto.simps)
    moreover have "1 \<le> 1 + int j \<and> 1 + int j \<le> 365" using j by auto
    ultimately show "map f [1..365] ! j = None" using assms(3) by simp
  qed
qed

lemma filter_eq_distinct:
  "distinct xs \<Longrightarrow> filter (\<lambda>k. k = x) xs = (if x \<in> set xs then [x] else [])"
  by (induction xs) auto

text \<open>
  The quantile of a site on a day before the fills is the 0.9 quantile of the flows of
  the group of that site, name and day, when there is such a group.
\<close>

lemma known_p90_quantile:
  "known_p90 df (s, n) d =
     (if (s, n, d) \<in> set (day_keys (valid_rows df))
      then quantile90 (day_flows (valid_rows df) (s, n, d)) else None)"
proof -
  let ?keys = "day_keys (valid_rows df)"
  let ?G = "\<lambda>k. (k, quantile90 (day_flows (valid_rows df) k))"
  have d: "distinct ?keys" by (simp add: day_keys_def)
  have frame: "site_frame (grouped_p90 (valid_rows df)) (s, n)
        = map (\<lambda>k. (snd (snd k), quantile90 (day_flows (valid_rows df) k)))
            (filter (\<lambda>k. fst k = s \<and> fst (snd k) = n) ?keys)"
    by (simp add: site_frame_def grouped_p90_def filter_map comp_def case_prod_unfold)
  have "filter (\<lambda>(d', p). d' = d) (site_frame (grouped_p90 (valid_rows df)) (s, n))
        = map (\<lambda>k. (snd (snd k), quantile90 (day_flows (valid_rows df) k)))
            (filter (\<lambda>k. fst k = s \<and> fst (snd k) = n \<and> snd (snd k) = d) ?keys)"
    unfolding frame by (simp add: filter_map comp_def case_prod_unfold)
  also have "filter (\<lambda>k. fst k = s \<and> fst (snd k) = n \<and> snd (snd k) = d) ?keys
             = filter (\<lambda>k. k = (s, n, d)) ?keys"
    by (rule filter_cong [OF refl]) (auto simp: prod_eq_iff)
  also have "map (\<lambda>k. (snd (snd k), quantile90 (day_flows (valid_rows df) k)))
               (filter (\<lambda>k. k = (s, n, d)) ?keys)
             = map (\<lambda>k. (d, quantile90 (day_flows (valid_rows df) k)))
               (filter (\<lambda>k. k = (s, n, d)) ?keys)"
    by (rule map_cong [OF refl]) auto
  also have "\<dots> = (if (s, n, d) \<in> set ?keys
                     then [(d, quantile90 (day_flows (valid_rows df) (s, n, d)))] else [])"
    by (simp add: filter_eq_distinct [OF d])
  finally show ?thesis
    by (simp add: known_p90_def merged_value_def)
qed

lemma baseline_row_value:
  assumes "h \<in> set (compute_p90_by_day df)"
  shows "1 \<le> hist_day_of_year h \<and> hist_day_of_year h \<le> 365
         \<and> hist_p90_flow_cfs h
             = flt_of (fill_column (map (known_p90 df (hist_site_no h, hist_site_name h)) [1..365])
                        ! nat (hist_day_of_year h - 1))"
proof -
  let ?g = "grouped_p90 (valid_rows df)"
  from assms obtain k where hk: "h \<in> set (site_block ?g k)"
    by (auto simp: compute_p90_by_day_def Let_def)
  then have k: "k = (hist_site_no h, hist_site_name h)"
    using site_block_rows by metis
  let ?curve = "site_curve (site_frame ?g k)"
  from hk obtain d p where dp: "(d, p) \<in> set (zip [1..365] ?curve)"
    and h: "h = \<lparr>hist_site_no = fst k, hist_site_name = snd k,
                  hist_day_of_year = d, hist_p90_flow_cfs = flt_of p\<rparr>"
    by (auto simp: site_block_def Let_def)
  from dp obtain i where i: "i < length [1..365]" "[1..365] ! i = d" "?curve ! i = p"
    unfolding in_set_zip by auto
  from i(1) have i365: "i < 365" by (simp only: length_days)
  with i(2) have d: "d = 1 + int i" by (simp only: days_nth)
  then have idx: "nat (d - 1) = i" by simp
  have "known_p90 df k = merged_value (site_frame ?g k)"
    by (rule ext) (simp add: known_p90_def)
  then have curve: "?curve = fill_column (map (known_p90 df k) [1..365])"
    by (simp only: site_curve_def)
  have "hist_p90_flow_cfs h = flt_of (fill_column (map (known_p90 df k) [1..365]) ! nat (d - 1))"
    using i(3) by (simp only: h idx curve hist_row.simps)
  moreover have "hist_day_of_year h = d" by (simp add: h)
  moreover have "1 \<le> d \<and> d \<le> 365" using d i365 by simp
  ultimately show ?thesis using k by simp
qed

lemma baseline_rows_have_source:
  assumes "h \<in> set (compute_p90_by_day df)"
  shows "\<exists>r \<in> set df. dv_site_no r = hist_site_no h \<and> dv_site_name r = hist_site_name h"
proof -
  from assms have "(hist_site_no h, hist_site_name h)
      \<in> (\<lambda>h. (hist_site_no h, hist_site_name h)) ` set (compute_p90_by_day df)"
    by (rule imageI)
  then show ?thesis
    unfolding baseline_sites_iff by blast
qed

lemma baseline_rows_shape:
  assumes "h \<in> set (compute_p90_by_day df)"
  shows "map hist_day_of_year
            (filter (\<lambda>h'. hist_site_no h' = hist_site_no h \<and> hist_site_name h' = hist_site_name h)
               (compute_p90_by_day df)) = [1..365]"
proof -
  let ?out = "compute_p90_by_day df"
  let ?g = "grouped_p90 (valid_rows df)"
  from assms have k: "(hist_site_no h, hist_site_name h) \<in> set (site_keys ?g)"
    by (rule baseline_row_key)
  have "filter (\<lambda>h'. hist_site_no h' = hist_site_no h \<and> hist_site_name h' = hist_site_name h) ?out
        = filter (\<lambda>h'. (hist_site_no h', hist_site_name h') = (hist_site_no h, hist_site_name h)) ?out"
    by simp
  also have "\<dots> = site_block ?g (hist_site_no h, hist_site_name h)"
    using k by (rule baseline_rows_of_key)
  finally show ?thesis
    by (simp only: site_block_days)
qed

lemma baseline_row_exists:
  assumes "(s, n) \<in> (\<lambda>h. (hist_site_no h, hist_site_name h)) ` set (compute_p90_by_day df)"
    and "1 \<le> d" "d \<le> 365"
  shows "\<exists>h \<in> set (compute_p90_by_day df).
           hist_site_no h = s \<and> hist_site_name h = n \<and> hist_day_of_year h = d"
proof -
  let ?out = "compute_p90_by_day df"
  from assms(1) obtain h0 where h0: "h0 \<in> set ?out" "hist_site_no h0 = s" "hist_site_name h0 = n"
    by auto
  let ?rows = "filter (\<lambda>h'. hist_site_no h' = s \<and> hist_site_name h' = n) ?out"
  have days: "map hist_day_of_year ?rows = [1..365]"
    using baseline_rows_shape [OF h0(1)] by (simp only: h0)
  then have "length (map hist_day_of_year ?rows) = length [1..365]" by (simp only:)
  then have len: "length ?rows = 365" by (simp only: length_map length_days)
  let ?h = "?rows ! nat (d - 1)"
  have i: "nat (d - 1) < length ?rows" using assms(2,3) len by simp
  then have mem: "?h \<in> set ?rows" by (rule nth_mem)
  have "hist_day_of_year ?h = map hist_day_of_year ?rows ! nat (d - 1)"
    using i by (simp only: nth_map)
  also have "\<dots> = d"
    using assms(2,3) by (simp only: days) (simp add: days_nth del: upto.simps)
  finally have "hist_day_of_year ?h = d" .
  with mem show ?thesis by auto
qed

text \<open>
  C6, as the code has it. The result has, for every site (a site number with its
  name, the key of the loop), exactly 365 rows, with the days 1 to 365 in order and no
  null threshold. The threshold of a day is the 0.9 quantile of the site's samples of
  that day where there is one; a day without one that lies between two days with one
  is on the line through the nearest two; a day after the last, or before the first,
  day with a quantile takes the value of that day; a site without any quantile on the
  days 1 to 365 gets zero throughout.
\<close>

theorem compute_p90_by_day_dense:
  assumes "h \<in> set (compute_p90_by_day df)"
  shows "(let d = hist_day_of_year h;
              known = known_p90 df (hist_site_no h, hist_site_name h);
              rows = filter (\<lambda>h'. hist_site_no h' = hist_site_no h
                                  \<and> hist_site_name h' = hist_site_name h) (compute_p90_by_day df)
          in length rows = 365
             \<and> map hist_day_of_year rows = [1..365]
             \<and> hist_p90_flow_cfs h \<noteq> NaN
             \<and> (\<forall>d'. known d' =
                   (if (hist_site_no h, hist_site_name h, d') \<in> set (day_keys (valid_rows df))
                    then quantile90 (day_flows (valid_rows df) (hist_site_no h, hist_site_name h, d'))
                    else None))
             \<and> (\<forall>v. known d = Some v \<longrightarrow> hist_p90_flow_cfs h = Fin v)
             \<and> (\<forall>a va b vb.
                   known d = None
                   \<and> 1 \<le> a \<and> a < d \<and> known a = Some va \<and> (\<forall>j. a < j \<and> j < d \<longrightarrow> known j = None)
                   \<and> d < b \<and> b \<le> 365 \<and> known b = Some vb \<and> (\<forall>j. d < j \<and> j < b \<longrightarrow> known j = None)
                   \<longrightarrow> hist_p90_flow_cfs h
                         = Fin (va + (vb - va) * real_of_int (d - a) / real_of_int (b - a)))
             \<and> (\<forall>a va.
                   1 \<le> a \<and> a < d \<and> known a = Some va \<and> (\<forall>j. a < j \<and> j \<le> 365 \<longrightarrow> known j = None)
                   \<longrightarrow> hist_p90_flow_cfs h = Fin va)
             \<and> (\<forall>b vb.
                   d < b \<and> b \<le> 365 \<and> known b = Some vb \<and> (\<forall>j. 1 \<le> j \<and> j < b \<longrightarrow> known j = None)
                   \<longrightarrow> hist_p90_flow_cfs h = Fin vb)
             \<and> ((\<forall>j. 1 \<le> j \<and> j \<le> 365 \<longrightarrow> known j = None) \<longrightarrow> hist_p90_flow_cfs h = Fin 0))"
proof -
  define d where "d = hist_day_of_year h"
  define known where "known = known_p90 df (hist_site_no h, hist_site_name h)"
  define rows where "rows = filter (\<lambda>h'. hist_site_no h' = hist_site_no h
                                  \<and> hist_site_name h' = hist_site_name h) (compute_p90_by_day df)"
  from baseline_row_value [OF assms]
  have d1: "1 \<le> d" and d365: "d \<le> 365"
    and val: "hist_p90_flow_cfs h = flt_of (fill_column (map known [1..365]) ! nat (d - 1))"
    by (simp_all only: d_def known_def)
  have days: "map hist_day_of_year rows = [1..365]"
    unfolding rows_def using assms by (rule baseline_rows_shape)
  then have "length (map hist_day_of_year rows) = length [1..365]" by (simp only:)
  then have len: "length rows = 365" by (simp only: length_map length_days)
  have nonnull: "hist_p90_flow_cfs h \<noteq> NaN"
  proof -
    from assms obtain k where "h \<in> set (site_block (grouped_p90 (valid_rows df)) k)"
      by (auto simp: compute_p90_by_day_def Let_def)
    then show ?thesis using site_block_rows by blast
  qed
  have quant: "known d' =
                   (if (hist_site_no h, hist_site_name h, d') \<in> set (day_keys (valid_rows df))
                    then quantile90 (day_flows (valid_rows df) (hist_site_no h, hist_site_name h, d'))
                    else None)" for d'
    unfolding known_def by (rule known_p90_quantile)
  have c1: "hist_p90_flow_cfs h = Fin v" if "known d = Some v" for v
    using day_column_known [where f = known, OF d1 d365 that] by (simp add: val)
  have c2: "hist_p90_flow_cfs h = Fin (va + (vb - va) * real_of_int (d - a) / real_of_int (b - a))"
    if "known d = None
        \<and> 1 \<le> a \<and> a < d \<and> known a = Some va \<and> (\<forall>j. a < j \<and> j < d \<longrightarrow> known j = None)
        \<and> d < b \<and> b \<le> 365 \<and> known b = Some vb \<and> (\<forall>j. d < j \<and> j < b \<longrightarrow> known j = None)"
    for a va b vb
  proof -
    from that have "fill_column (map known [1..365]) ! nat (d - 1)
         = Some (va + (vb - va) * real_of_int (d - a) / real_of_int (b - a))"
      by (intro day_column_between [where f = known and a = a and b = b]) simp_all
    then show ?thesis by (simp add: val)
  qed
  have c3: "hist_p90_flow_cfs h = Fin va"
    if "1 \<le> a \<and> a < d \<and> known a = Some va \<and> (\<forall>j. a < j \<and> j \<le> 365 \<longrightarrow> known j = None)" for a va
  proof -
    from that d365 have "fill_column (map known [1..365]) ! nat (d - 1) = Some va"
      by (intro day_column_after [where f = known and a = a]) simp_all
    then show ?thesis by (simp add: val)
  qed
  have c4: "hist_p90_flow_cfs h = Fin vb"
    if "d < b \<and> b \<le> 365 \<and> known b = Some vb \<and> (\<forall>j. 1 \<le> j \<and> j < b \<longrightarrow> known j = None)" for b vb
  proof -
    from that d1 have "fill_column (map known [1..365]) ! nat (d - 1) = Some vb"
      by (intro day_column_before [where f = known and b = b]) simp_all
    then show ?thesis by (simp add: val)
  qed
  have c5: "hist_p90_flow_cfs h = Fin 0" if "\<forall>j. 1 \<le> j \<and> j \<le> 365 \<longrightarrow> known j = None"
    using day_column_none [where f = known, OF d1 d365 that] by (simp add: val)
  from len days nonnull quant c1 c2 c3 c4 c5
  have "length rows = 365
             \<and> map hist_day_of_year rows = [1..365]
             \<and> hist_p90_flow_cfs h \<noteq> NaN
             \<and> (\<forall>d'. known d' =
                   (if (hist_site_no h, hist_site_name h, d') \<in> set (day_keys (valid_rows df))
                    then quantile90 (day_flows (valid_rows df) (hist_site_no h, hist_site_name h, d'))
                    else None))
             \<and> (\<forall>v. known d = Some v \<longrightarrow> hist_p90_flow_cfs h = Fin v)
             \<and> (\<forall>a va b vb.
                   known d = None
                   \<and> 1 \<le> a \<and> a < d \<and> known a = Some va \<and> (\<forall>j. a < j \<and> j < d \<longrightarrow> known j = None)
                   \<and> d < b \<and> b \<le> 365 \<and> known b = Some vb \<and> (\<forall>j. d < j \<and> j < b \<longrightarrow> known j = None)
                   \<longrightarrow> hist_p90_flow_cfs h
                         = Fin (va + (vb - va) * real_of_int (d - a) / real_of_int (b - a)))
             \<and> (\<forall>a va.
                   1 \<le> a \<and> a < d \<and> known a = Some va \<and> (\<forall>j. a < j \<and> j \<le> 365 \<longrightarrow> known j = None)
                   \<longrightarrow> hist_p90_flow_cfs h = Fin va)
             \<and> (\<forall>b vb.
                   d < b \<and> b \<le> 365 \<and> known b = Some vb \<and> (\<forall>j. 1 \<le> j \<and> j < b \<longrightarrow> known j = None)
                   \<longrightarrow> hist_p90_flow_cfs h = Fin vb)
             \<and> ((\<forall>j. 1 \<le> j \<and> j \<le> 365 \<longrightarrow> known j = None) \<longrightarrow> hist_p90_flow_cfs h = Fin 0)"
    by (intro conjI allI impI)
  then show ?thesis
    unfolding Let_def d_def known_def rows_def .
qed

lemma sample_archive_known:
  "known_p90 sample_archive (7, ''g'') 1 = Some 10"
  "known_p90 sample_archive (7, ''g'') 2 = None"
  "known_p90 sample_archive (7, ''g'') 3 = None"
  "known_p90 sample_archive (7, ''g'') 4 = Some 40"
  by code_simp+

lemma sample_archive_site:
  "(7, ''g'') \<in> (\<lambda>h. (hist_site_no h, hist_site_name h)) ` set (compute_p90_by_day sample_archive)"
  unfolding baseline_sites_iff by (simp add: sample_archive_def dv_day_of_year_def)

theorem compute_p90_by_day_dense_witness:
  "\<exists>h \<in> set (compute_p90_by_day sample_archive).
      hist_site_no h = 7 \<and> hist_site_name h = ''g'' \<and> hist_day_of_year h = 2
      \<and> known_p90 sample_archive (7, ''g'') 1 = Some 10
      \<and> known_p90 sample_archive (7, ''g'') 2 = None
      \<and> known_p90 sample_archive (7, ''g'') 3 = None
      \<and> known_p90 sample_archive (7, ''g'') 4 = Some 40
      \<and> hist_p90_flow_cfs h = Fin 20
      \<and> length (filter (\<lambda>h'. hist_site_no h' = 7 \<and> hist_site_name h' = ''g'')
                  (compute_p90_by_day sample_archive)) = 365"
proof -
  from baseline_row_exists [OF sample_archive_site, of 2]
  obtain h where h: "h \<in> set (compute_p90_by_day sample_archive)"
    and key: "hist_site_no h = 7" "hist_site_name h = ''g''" and day: "hist_day_of_year h = 2"
    by auto
  note k = sample_archive_known
  have gap1: "\<forall>j::int. 1 < j \<and> j < 2 \<longrightarrow> known_p90 sample_archive (7, ''g'') j = None"
    by auto
  have gap2: "\<forall>j::int. 2 < j \<and> j < 4 \<longrightarrow> known_p90 sample_archive (7, ''g'') j = None"
  proof (intro allI impI)
    fix j :: int assume "2 < j \<and> j < 4"
    then have "j = 3" by simp
    then show "known_p90 sample_archive (7, ''g'') j = None" by (simp only: k)
  qed
  from compute_p90_by_day_dense [OF h]
  have len: "length (filter (\<lambda>h'. hist_site_no h' = 7 \<and> hist_site_name h' = ''g'')
                  (compute_p90_by_day sample_archive)) = 365"
    and between: "\<And>a va b vb.
        known_p90 sample_archive (7, ''g'') 2 = None
        \<and> 1 \<le> a \<and> a < 2 \<and> known_p90 sample_archive (7, ''g'') a = Some va
        \<and> (\<forall>j. a < j \<and> j < 2 \<longrightarrow> known_p90 sample_archive (7, ''g'') j = None)
        \<and> 2 < b \<and> b \<le> 365 \<and> known_p90 sample_archive (7, ''g'') b = Some vb
        \<and> (\<forall>j. 2 < j \<and> j < b \<longrightarrow> known_p90 sample_archive (7, ''g'') j = None)
        \<Longrightarrow> hist_p90_flow_cfs h = Fin (va + (vb - va) * real_of_int (2 - a) / real_of_int (b - a))"
    unfolding Let_def key day by blast+
  have "hist_p90_flow_cfs h = Fin (10 + (40 - 10) * real_of_int (2 - 1) / real_of_int (4 - 1))"
    by (rule between) (use k gap1 gap2 in simp)
  then have "hist_p90_flow_cfs h = Fin 20" by simp
  with h key day k len show ?thesis by blast
qed

lemma two_name_keys:
  "site_keys (grouped_p90 (valid_rows two_name_archive)) = [(7, ''a''), (7, ''b'')]"
  by code_simp

text \<open>
  C6 does not hold as stated for a site number that comes under two names: the loop
  runs once per name, and the result has 730 rows for the site number.
\<close>

theorem compute_p90_by_day_dense_counterexample:
  "length (filter (\<lambda>h. hist_site_no h = 7) (compute_p90_by_day two_name_archive)) = 730"
proof -
  let ?g = "grouped_p90 (valid_rows two_name_archive)"
  have out: "compute_p90_by_day two_name_archive
             = site_block ?g (7, ''a'') @ site_block ?g (7, ''b'')"
    by (simp add: compute_p90_by_day_def Let_def two_name_keys)
  have len: "length (site_block ?g k) = 365" for k
  proof -
    have "length (map hist_day_of_year (site_block ?g k)) = length [1..365]"
      by (simp only: site_block_days)
    then show ?thesis by (simp only: length_map length_days)
  qed
  have all: "filter (\<lambda>h. hist_site_no h = 7) (site_block ?g (7, n)) = site_block ?g (7, n)" for n
    unfolding filter_id_conv using site_block_rows by fastforce
  show ?thesis
    by (simp only: out filter_append all length_append len; simp)
qed

text \<open>
  The site numbers of the result: those for which the archive has a flow that is not
  null and a row whose timestamp parses. A site all of whose flows are null does not
  appear; a site with a sample that has a flow and a timestamp does.
\<close>

lemma baseline_site_numbers:
  "(s \<in> hist_site_no ` set (compute_p90_by_day df)
      \<longleftrightarrow> (\<exists>r \<in> set df. dv_site_no r = s \<and> dv_flow_cfs r \<noteq> None)
          \<and> (\<exists>r \<in> set df. dv_site_no r = s \<and> dv_day_of_year r \<noteq> None))
   \<and> ((\<forall>r \<in> set df. dv_site_no r = s \<longrightarrow> dv_flow_cfs r = None)
        \<longrightarrow> s \<notin> hist_site_no ` set (compute_p90_by_day df))
   \<and> ((\<exists>r \<in> set df. dv_site_no r = s \<and> dv_flow_cfs r \<noteq> None \<and> dv_day_of_year r \<noteq> None)
        \<longrightarrow> s \<in> hist_site_no ` set (compute_p90_by_day df))"
proof -
  let ?A = "\<exists>r \<in> set df. dv_site_no r = s \<and> dv_flow_cfs r \<noteq> None"
  let ?B = "\<exists>r \<in> set df. dv_site_no r = s \<and> dv_day_of_year r \<noteq> None"
  have iff: "s \<in> hist_site_no ` set (compute_p90_by_day df) \<longleftrightarrow> ?A \<and> ?B"
  proof
    assume "s \<in> hist_site_no ` set (compute_p90_by_day df)"
    then obtain h where h: "h \<in> set (compute_p90_by_day df)" and s: "hist_site_no h = s"
      by (elim imageE) simp
    from h have "(hist_site_no h, hist_site_name h)
        \<in> (\<lambda>h. (hist_site_no h, hist_site_name h)) ` set (compute_p90_by_day df)"
      by (rule imageI)
    then have "(\<exists>r \<in> set df. dv_site_no r = hist_site_no h \<and> dv_flow_cfs r \<noteq> None)
          \<and> (\<exists>r \<in> set df. dv_site_no r = hist_site_no h \<and> dv_site_name r = hist_site_name h
                 \<and> dv_day_of_year r \<noteq> None)"
      by (simp only: baseline_sites_iff)
    then obtain r1 r2 where
      "r1 \<in> set df" "dv_site_no r1 = s" "dv_flow_cfs r1 \<noteq> None"
      "r2 \<in> set df" "dv_site_no r2 = s" "dv_day_of_year r2 \<noteq> None"
      unfolding s by (elim conjE bexE)
    then show "?A \<and> ?B" by (intro conjI bexI [of _ r1] bexI [of _ r2]) simp_all
  next
    assume ab: "?A \<and> ?B"
    then obtain r2 where r2: "r2 \<in> set df" "dv_site_no r2 = s" "dv_day_of_year r2 \<noteq> None"
      by (elim conjE bexE)
    from r2 have "\<exists>r \<in> set df. dv_site_no r = s \<and> dv_site_name r = dv_site_name r2
                 \<and> dv_day_of_year r \<noteq> None"
      by (intro bexI [of _ r2]) simp_all
    with ab have "(\<exists>r \<in> set df. dv_site_no r = s \<and> dv_flow_cfs r \<noteq> None)
          \<and> (\<exists>r \<in> set df. dv_site_no r = s \<and> dv_site_name r = dv_site_name r2
                 \<and> dv_day_of_year r \<noteq> None)"
      by (elim conjE) (rule conjI)
    then have "(s, dv_site_name r2)
        \<in> (\<lambda>h. (hist_site_no h, hist_site_name h)) ` set (compute_p90_by_day df)"
      by (simp only: baseline_sites_iff)
    then obtain h where "h \<in> set (compute_p90_by_day df)" "hist_site_no h = s"
      by (elim imageE) simp
    then show "s \<in> hist_site_no ` set (compute_p90_by_day df)"
      by (intro image_eqI [of _ _ h]) simp_all
  qed
  have none: "s \<notin> hist_site_no ` set (compute_p90_by_day df)"
    if "\<forall>r \<in> set df. dv_site_no r = s \<longrightarrow> dv_flow_cfs r = None"
  proof -
    have "\<not> ?A"
    proof
      assume ?A
      then obtain r where "r \<in> set df" "dv_site_no r = s" "dv_flow_cfs r \<noteq> None"
        by (elim conjE bexE)
      with that show False by simp
    qed
    then show ?thesis by (simp only: iff simp_thms)
  qed
  have some: "s \<in> hist_site_no ` set (compute_p90_by_day df)"
    if "\<exists>r \<in> set df. dv_site_no r = s \<and> dv_flow_cfs r \<noteq> None \<and> dv_day_of_year r \<noteq> None"
  proof -
    from that obtain r where "r \<in> set df" "dv_site_no r = s" "dv_flow_cfs r \<noteq> None"
      "dv_day_of_year r \<noteq> None" by (elim conjE bexE)
    then have "?A \<and> ?B" by (intro conjI bexI [of _ r]) simp_all
    then show ?thesis by (simp only: iff)
  qed
  from iff none some show ?thesis
    by (intro conjI impI)
qed

lemma sentinel_keys:
  "site_keys (grouped_p90 (valid_rows sentinel_archive)) = [(9, ''k'')]"
  "day_keys (valid_rows sentinel_archive) = [(9, ''k'', 1)]"
  "known_p90 sentinel_archive (9, ''k'') 1 = Some (- 9999)"
  by code_simp+

text \<open>
  C7. The gauge whose only value is the code -9999, which the live feed turns into
  null as "no data", has no valid sample; yet it is in the result, on all 365 days and
  with the threshold -9999, because the archive's numbers are not screened for the code.
\<close>

theorem compute_p90_by_day_keeps_sentinel:
  "map dv_flow_cfs sentinel_archive = [Some (- 9999)]
   \<and> 9 \<in> hist_site_no ` set (compute_p90_by_day sentinel_archive)
   \<and> length (compute_p90_by_day sentinel_archive) = 365
   \<and> list_all (\<lambda>h. hist_site_no h = 9 \<and> hist_p90_flow_cfs h = Fin (- 9999))
        (compute_p90_by_day sentinel_archive)"
proof -
  let ?out = "compute_p90_by_day sentinel_archive"
  let ?g = "grouped_p90 (valid_rows sentinel_archive)"
  let ?known = "known_p90 sentinel_archive (9, ''k'')"
  have flows: "map dv_flow_cfs sentinel_archive = [Some (- 9999)]"
    by (simp add: sentinel_archive_def)
  have out: "?out = site_block ?g (9, ''k'')"
    by (simp add: compute_p90_by_day_def Let_def sentinel_keys)
  have "length (map hist_day_of_year (site_block ?g (9, ''k''))) = length [1..365]"
    by (simp only: site_block_days)
  then have len: "length ?out = 365"
    by (simp only: out length_map length_days)
  have none: "?known j = None" if "j \<noteq> 1" for j
    using that by (simp add: known_p90_quantile sentinel_keys)
  have row: "hist_site_no h = 9 \<and> hist_p90_flow_cfs h = Fin (- 9999)" if h: "h \<in> set ?out" for h
  proof -
    from h have key: "(hist_site_no h, hist_site_name h) = (9, ''k'')"
      unfolding out using site_block_rows by blast
    from baseline_row_value [OF h]
    have d1: "1 \<le> hist_day_of_year h" and d365: "hist_day_of_year h \<le> 365"
      and val: "hist_p90_flow_cfs h
                = flt_of (fill_column (map ?known [1..365]) ! nat (hist_day_of_year h - 1))"
      by (simp_all only: key)
    have "fill_column (map ?known [1..365]) ! nat (hist_day_of_year h - 1) = Some (- 9999)"
    proof (cases "hist_day_of_year h = 1")
      case True
      show ?thesis
        by (rule day_column_known [where f = ?known, OF d1 d365]) (simp only: True sentinel_keys)
    next
      case False
      show ?thesis
      proof (rule day_column_after [where f = ?known and a = 1, OF d365])
        show "(1::int) \<le> 1" by simp
        show "1 < hist_day_of_year h" using d1 False by simp
        show "?known 1 = Some (- 9999)" by (simp only: sentinel_keys)
        show "\<forall>j. 1 < j \<and> j \<le> 365 \<longrightarrow> ?known j = None" using none by simp
      qed
    qed
    with val key show ?thesis by simp
  qed
  from len obtain h0 where h0: "h0 \<in> set ?out" by (cases ?out) auto
  with row have "9 \<in> hist_site_no ` set ?out" by force
  moreover have "list_all (\<lambda>h. hist_site_no h = 9 \<and> hist_p90_flow_cfs h = Fin (- 9999)) ?out"
    unfolding list_all_iff using row by blast
  ultimately show ?thesis using flows len by simp
qed
subsection \<open>The day of year of a current reading\<close>

text \<open>
  C1. At 2024-01-02 02:00 UTC it is 21:00 on 1 January in Virginia. The baseline files
  a sample taken at that instant under day 1, its local date; \<open>prepare_current_data\<close>
  gives a reading taken at that instant the day of year of its UTC timestamp, 2, so
  \<open>main\<close> joins it with the threshold of day 2 (20, not 10); process\_gauge\_data.py
  uses the same UTC day.
\<close>

theorem current_day_of_year_is_utc:
  "dv_day_of_year \<lparr>dv_site_no = 7::nat, dv_site_name = ''g'', date = TsOk evening_instant,
                    dv_flow_cfs = Some 10\<rparr> = Some 1
   \<and> map day_of_year
         (prepare_current_data
            [\<lparr>site_no = Some (7::nat), site_name = ''g'', timestamp_utc = Some evening_instant,
              flow_cfs = Fin 100, pct_change_1h = NaN, pct_change_3h = NaN, pct_change_6h = NaN\<rparr>])
       = [Some 2]
   \<and> map_sum id (map_option (map p90_flow_cfs)) (compare_p90_roc_main evening_frame (Some two_day_hist))
       = Inr (Some [Fin 20])
   \<and> map day_of_year' (process_gauge_data silent_gauge two_day_hist) = [Some 2]"
  by code_simp

subsection \<open>The colour column of the map\<close>

text \<open>
  C8. A 3-hour change of 25.0001 is above 25, and \<open>color_logic\<close> gives red (sharp rise)
  for it; but \<open>build_map\<close> rounds the column to three decimals before it applies
  \<open>color_logic\<close>, so the gauge is drawn blue (moderate rise). In the same way a change
  of 0.0004, which is above 0, is drawn brown (stable or declining). The values 25, 10,
  - 3, 40 and null get blue, blue, brown, red and gray.
\<close>

theorem build_map_colors_rounded:
  "fless (Fin 25) (Fin (250001 / 10000))
   \<and> color_logic (Fin (250001 / 10000)) = red
   \<and> build_map_colors [gauge_rising (Fin (250001 / 10000))] = [blue]
   \<and> fless (Fin 0) (Fin (4 / 10000))
   \<and> color_logic (Fin (4 / 10000)) = blue
   \<and> build_map_colors [gauge_rising (Fin (4 / 10000))] = [brown]
   \<and> build_map_colors (map gauge_rising [Fin 25, Fin 10, Fin (- 3), Fin 40, NaN])
       = [blue, blue, brown, red, gray]"
  by code_simp

end
